theory Spec2Isabelle
  imports Main "HOL-Library.List_Lexorder" "HOL-Library.Char_ord"
begin

section \<open>Release-note mention migration: a model of the update, backup and restore scripts\<close>

text \<open>
  The repository rewrites \<open>@username\<close> mentions in GitHub release notes
  (\<open>helpers/common.mjs\<close>), backs the releases up before updating them
  (\<open>helpers/backup.mjs\<close>, \<open>update-release-contributors.mjs\<close>) and can replay a
  backup (\<open>restore-from-backup.mjs\<close>). Each function below is the source function of the
  same name. Strings are \<open>char list\<close>; \<open>null\<close> is \<open>None\<close>; every call of the file
  system and of the remote API takes its outcome from an explicit environment, and a call
  that throws in the source is a \<open>None\<close> in the model.
\<close>

subsection \<open>The substitution engine (\<open>updateUsernamesInReleaseNotes\<close>)\<close>

text \<open>
  The source builds, for each mapping entry, the regular expression
  \<^verbatim>\<open>@OLD(?!-SEG)\b\<close> with the flag \<open>g\<close>, where \<open>SEG\<close> is the part of the new
  name after its last hyphen, and replaces every match by \<^verbatim>\<open>@NEW\<close>. The names are
  pasted into the expression and into the replacement unescaped, so a \<open>|\<close> in a name
  is the alternation of the expression: \<^verbatim>\<open>@a|b(?!-SEG)\b\<close> matches \<open>@a\<close>, or
  \<open>b\<close> where the lookahead and the boundary hold. The model reads a name as
  alternatives of literal text, separated by \<open>|\<close>. That is what the expression means
  for every name without the characters \<^verbatim>\<open>\ ^ $ . * + ? ( ) [ ] { }\<close>; names with
  one of these are outside the model.

  \<open>isWordChar\<close> is the class \<^verbatim>\<open>\w\<close> of a JavaScript expression without the
  flags \<open>i\<close> and \<open>u\<close>.
\<close>

definition isWordChar :: "char \<Rightarrow> bool" where
  "isWordChar c =
     (let n = (of_char c :: nat)
      in (48 \<le> n \<and> n \<le> 57) \<or> (65 \<le> n \<and> n \<le> 90) \<or> (97 \<le> n \<and> n \<le> 122) \<or> n = 95)"

fun startsWith :: "string \<Rightarrow> string \<Rightarrow> bool" where
  "startsWith [] s = True"
| "startsWith (p # ps) [] = False"
| "startsWith (p # ps) (c # cs) = (p = c \<and> startsWith ps cs)"

text \<open>\<^verbatim>\<open>s.split(sep)\<close> for a one-character separator.\<close>

fun splitOn :: "char \<Rightarrow> string \<Rightarrow> string list" where
  "splitOn sep [] = [[]]"
| "splitOn sep (c # cs) =
     (if c = sep then [] # splitOn sep cs
      else (case splitOn sep cs of [] \<Rightarrow> [[c]] | x # xs \<Rightarrow> (c # x) # xs))"

text \<open>\<^verbatim>\<open>newUsername.split('-').slice(-1)[0]\<close>: the text after the last hyphen, the
  whole name when it has none.\<close>

definition lastSegment :: "string \<Rightarrow> string" where
  "lastSegment s = rev (takeWhile (\<lambda>c. c \<noteq> CHR ''-'') (rev s))"

text \<open>\<^verbatim>\<open>\b\<close> at a position of the text: \<open>prev\<close> is the character before it
  (\<open>None\<close> at the start), \<open>after\<close> the text from it on. The start and the end of the
  text count as non-word characters.\<close>

definition wordBoundaryAt :: "char option \<Rightarrow> string \<Rightarrow> bool" where
  "wordBoundaryAt prev after =
     ((case prev of None \<Rightarrow> False | Some p \<Rightarrow> isWordChar p)
        \<noteq> (case after of [] \<Rightarrow> False | c # _ \<Rightarrow> isWordChar c))"

text \<open>The alternatives before the last one are literal text; the first that is a prefix of
  \<open>s\<close> matches, with its length.\<close>

fun tryAlternatives :: "string list \<Rightarrow> string \<Rightarrow> nat option" where
  "tryAlternatives [] s = None"
| "tryAlternatives (a # alts) s =
     (if startsWith a s then Some (length a) else tryAlternatives alts s)"

text \<open>
  The match of the expression at a position: \<open>prev\<close> is the character of the text before
  the position, \<open>s\<close> the text from it on; the result is the length of the match. The
  alternatives are those of \<^verbatim>\<open>@OLD\<close>, tried in order; the last one carries the
  lookahead, whose own alternatives are those of \<^verbatim>\<open>-SEG\<close>, and the boundary, which
  looks back at the last character matched, or at the text before the match when the
  alternative is empty.
\<close>

definition regexMatchAt :: "string \<Rightarrow> string \<Rightarrow> char option \<Rightarrow> string \<Rightarrow> nat option" where
  "regexMatchAt oldUsername newUsername prev s =
     (let alts = splitOn (CHR ''|'') (CHR ''@'' # oldUsername);
          guards = splitOn (CHR ''|'') (CHR ''-'' # lastSegment newUsername);
          final = last alts;
          after = drop (length final) s
      in case tryAlternatives (butlast alts) s of
           Some n \<Rightarrow> Some n
         | None \<Rightarrow>
             if startsWith final s
                \<and> \<not> list_ex (\<lambda>g. startsWith g after) guards
                \<and> wordBoundaryAt (if final = [] then prev else Some (last final)) after
             then Some (length final)
             else None)"

text \<open>
  \<^verbatim>\<open>updatedBody.replace(oldPattern, newReference)\<close> with a global expression: a scan
  from the left. A match is replaced and the scan goes on behind it; behind an empty match
  it goes on one character further, and that character is kept. The end of the text is a
  position as well.
\<close>

fun replaceRegex :: "string \<Rightarrow> string \<Rightarrow> char option \<Rightarrow> string \<Rightarrow> string" where
  "replaceRegex oldUsername newUsername prev [] =
     (case regexMatchAt oldUsername newUsername prev [] of
        None \<Rightarrow> []
      | Some n \<Rightarrow> CHR ''@'' # newUsername)"
| "replaceRegex oldUsername newUsername prev (c # cs) =
     (case regexMatchAt oldUsername newUsername prev (c # cs) of
        None \<Rightarrow> c # replaceRegex oldUsername newUsername (Some c) cs
      | Some n \<Rightarrow>
          if n = 0
          then (CHR ''@'' # newUsername) @ c # replaceRegex oldUsername newUsername (Some c) cs
          else (CHR ''@'' # newUsername)
                 @ replaceRegex oldUsername newUsername (Some ((c # cs) ! (n - 1)))
                     (drop (n - 1) cs))"

text \<open>The mapping is the list \<^verbatim>\<open>Object.entries(usernameMapping)\<close>, in its order.\<close>

type_synonym username_mapping = "(string \<times> string) list"

text \<open>The \<^verbatim>\<open>for\<close> loop over the entries.\<close>

fun replaceEntries :: "username_mapping \<Rightarrow> string \<Rightarrow> string" where
  "replaceEntries [] updatedBody = updatedBody"
| "replaceEntries ((oldUsername, newUsername) # entries) updatedBody =
     replaceEntries entries (replaceRegex oldUsername newUsername None updatedBody)"

definition updateUsernamesInReleaseNotes ::
  "string option \<Rightarrow> username_mapping \<Rightarrow> string option" where
  "updateUsernamesInReleaseNotes body usernameMapping =
     (case body of
        None \<Rightarrow> None
      | Some b \<Rightarrow> if b = [] then Some b else Some (replaceEntries usernameMapping b))"

text \<open>
  For names without \<open>|\<close> the expression has one alternative, \<^verbatim>\<open>@OLD\<close> as literal
  text, and a match is never empty. \<open>matchesAt\<close>, \<open>replaceAll\<close> and \<open>replaceEach\<close>
  are the match, the replacement and the loop in that case (\<open>regexMatchAt_literal\<close>,
  \<open>replaceRegex_literal\<close> and \<open>replaceEntries_literal\<close> below); the proofs about
  account handles go through them.
\<close>

definition wordBoundary :: "char \<Rightarrow> string \<Rightarrow> bool" where
  "wordBoundary prev after =
     (isWordChar prev \<noteq> (case after of [] \<Rightarrow> False | c # _ \<Rightarrow> isWordChar c))"

definition matchesAt :: "string \<Rightarrow> string \<Rightarrow> string \<Rightarrow> bool" where
  "matchesAt oldUsername newUsername s =
     (let pat = CHR ''@'' # oldUsername; after = drop (length pat) s
      in startsWith pat s
         \<and> \<not> startsWith (CHR ''-'' # lastSegment newUsername) after
         \<and> wordBoundary (last pat) after)"

fun replaceAll :: "string \<Rightarrow> string \<Rightarrow> string \<Rightarrow> string" where
  "replaceAll oldUsername newUsername [] = []"
| "replaceAll oldUsername newUsername (c # cs) =
     (if matchesAt oldUsername newUsername (c # cs)
      then (CHR ''@'' # newUsername)
             @ replaceAll oldUsername newUsername (drop (length oldUsername) cs)
      else c # replaceAll oldUsername newUsername cs)"

fun replaceEach :: "username_mapping \<Rightarrow> string \<Rightarrow> string" where
  "replaceEach [] updatedBody = updatedBody"
| "replaceEach ((oldUsername, newUsername) # entries) updatedBody =
     replaceEach entries (replaceAll oldUsername newUsername updatedBody)"

text \<open>Account handles: letters, digits, underscore and hyphen.\<close>

definition handle_char :: "char \<Rightarrow> bool" where
  "handle_char c = (isWordChar c \<or> c = CHR ''-'')"

definition literal_handle :: "string \<Rightarrow> bool" where
  "literal_handle s = list_all handle_char s"

definition literal_mapping :: "username_mapping \<Rightarrow> bool" where
  "literal_mapping m = list_all (\<lambda>(old, new). literal_handle old \<and> literal_handle new) m"

text \<open>
  The claim "only mentions are rewritten", in the specification's words: one pass turns
  \<open>s\<close> into \<open>t\<close> by copying characters and by replacing occurrences of \<open>@old\<close> by
  \<open>@new\<close> for entries of the mapping, and does nothing else.
\<close>

inductive mentionRewrite :: "username_mapping \<Rightarrow> string \<Rightarrow> string \<Rightarrow> bool"
  for m :: username_mapping where
  mr_end: "mentionRewrite m [] []"
| mr_copy: "mentionRewrite m s t \<Longrightarrow> mentionRewrite m (c # s) (c # t)"
| mr_mention: "(old, new) \<in> set m \<Longrightarrow> mentionRewrite m s t \<Longrightarrow>
     mentionRewrite m (CHR ''@'' # old @ s) (CHR ''@'' # new @ t)"

text \<open>
  \<open>afterMention p\<close>: the text \<open>p\<close> ends inside a mention, that is, in an \<open>@\<close>
  followed by handle characters only. What follows such a \<open>p\<close> continues the mention.
\<close>

definition afterMention :: "string \<Rightarrow> bool" where
  "afterMention p =
     (case dropWhile handle_char (rev p) of [] \<Rightarrow> False | c # _ \<Rightarrow> c = CHR ''@'')"

text \<open>
  The vocabulary of the claim about a second run. \<open>cannotMatch old new n\<close>: the
  expression of the entry \<open>(old, new)\<close> matches no mention \<open>@n\<close>, whatever follows
  it: either \<open>n\<close> and \<open>old\<close> differ before one of them ends, or \<open>n\<close> continues
  \<open>old\<close> with the suffix the lookahead excludes, or with a character that leaves no
  word boundary behind \<open>old\<close>. \<open>rerunSafe m\<close>: this holds for every entry of \<open>m\<close> and
  the new handle of every entry of \<open>m\<close>, its own included.
\<close>

definition cannotMatch :: "string \<Rightarrow> string \<Rightarrow> string \<Rightarrow> bool" where
  "cannotMatch oldUsername newUsername n =
     (if startsWith oldUsername n
      then (let r = drop (length oldUsername) n
            in startsWith (CHR ''-'' # lastSegment newUsername) r
               \<or> (r \<noteq> [] \<and> \<not> wordBoundary (last (CHR ''@'' # oldUsername)) r))
      else \<not> startsWith n oldUsername)"

definition rerunSafe :: "username_mapping \<Rightarrow> bool" where
  "rerunSafe m =
     list_all (\<lambda>(old, new). list_all (\<lambda>(old', new'). cannotMatch old new new') m) m"

text \<open>
  For the proofs: \<open>everywhere P t\<close> says that \<open>P\<close> holds of every non-empty suffix of
  \<open>t\<close>; \<open>inert m v\<close> that \<open>v\<close> starts with the mention of a new handle of \<open>m\<close>;
  \<open>settled m D v\<close> that \<open>v\<close> is inert or is matched by no entry of \<open>D\<close>.
\<close>

fun everywhere :: "(string \<Rightarrow> bool) \<Rightarrow> string \<Rightarrow> bool" where
  "everywhere P [] = True"
| "everywhere P (c # cs) = (P (c # cs) \<and> everywhere P cs)"

definition inert :: "username_mapping \<Rightarrow> string \<Rightarrow> bool" where
  "inert m v = (\<exists>(old, new) \<in> set m. startsWith (CHR ''@'' # new) v)"

definition settled ::
  "username_mapping \<Rightarrow> (string \<times> string) set \<Rightarrow> string \<Rightarrow> bool" where
  "settled m D v = (inert m v \<or> (\<forall>(old, new) \<in> D. \<not> matchesAt old new v))"

text \<open>\<open>containsStr p s\<close>: \<open>p\<close> occurs in \<open>s\<close>.\<close>

fun containsStr :: "string \<Rightarrow> string \<Rightarrow> bool" where
  "containsStr p [] = (p = [])"
| "containsStr p (c # cs) = (startsWith p (c # cs) \<or> containsStr p cs)"

subsection \<open>Releases, backup documents and the backup index\<close>

text \<open>
  A backed-up release holds seven fields; a release as the remote lists it holds these
  and more (\<open>remote_extra\<close>: every other field of the response, as name and value).
\<close>

record backup_release =
  release_id :: int
  tag_name :: string
  name :: "string option"
  body :: "string option"
  created_at :: string
  published_at :: "string option"
  html_url :: string

record release = backup_release +
  remote_extra :: "(string \<times> string) list"

record backup_data =
  repository :: string
  backup_timestamp :: string
  total_releases :: nat
  releases :: "backup_release list"
  test_note :: "string option"

record backup_file =
  file_name :: string
  path :: string
  file_size :: nat

record backup_entry =
  owner :: string
  repo :: string
  backup_files :: "backup_file list"

record backup_index =
  index_created_at :: string
  total_repositories :: nat
  index_total_releases :: nat
  repositories :: "backup_entry list"

text \<open>What \<^verbatim>\<open>JSON.parse\<close> gives for a file: a backup document, an index document,
  or some other object (one with neither \<open>releases\<close> nor \<open>repositories\<close>).\<close>

datatype document = BackupDoc backup_data | IndexDoc backup_index | OtherJson

subsection \<open>The file system\<close>

text \<open>
  Each \<^verbatim>\<open>fs\<close> call of the source reads its outcome here; \<open>None\<close> is a call that
  throws. \<open>readJson\<close> is \<^verbatim>\<open>JSON.parse(fs.readFileSync(p, 'utf8'))\<close>. A write that
  succeeds is read back as written; the listings and sizes are those of the state the
  function was called in.
\<close>

record stats =
  isDirectory :: bool
  stat_size :: nat

record filesystem =
  existsSync :: "string \<Rightarrow> bool"
  readdirSync :: "string \<Rightarrow> string list option"
  statSync :: "string \<Rightarrow> stats option"
  readJson :: "string \<Rightarrow> document option"
  mkdirOk :: "string \<Rightarrow> bool"
  writeOk :: "string \<Rightarrow> bool"

definition mkdirSync :: "filesystem \<Rightarrow> string \<Rightarrow> filesystem option" where
  "mkdirSync fs p =
     (if mkdirOk fs p then Some (fs\<lparr>existsSync := (existsSync fs)(p := True)\<rparr>) else None)"

definition writeFileSync :: "filesystem \<Rightarrow> string \<Rightarrow> document \<Rightarrow> filesystem option" where
  "writeFileSync fs p doc =
     (if writeOk fs p
      then Some (fs\<lparr>existsSync := (existsSync fs)(p := True),
                    readJson := (readJson fs)(p \<mapsto> doc)\<rparr>)
      else None)"

subsection \<open>The backup manager (\<open>helpers/backup.mjs\<close>)\<close>

text \<open>\<^verbatim>\<open>createBackupDirectory\<close>: the loop over the parts of the path. The result
  says whether every \<^verbatim>\<open>mkdirSync\<close> went through, and keeps the directories made
  before one that threw.\<close>

fun createDirs :: "filesystem \<Rightarrow> string \<Rightarrow> string list \<Rightarrow> bool \<times> filesystem" where
  "createDirs fs currentPath [] = (True, fs)"
| "createDirs fs currentPath (dir # dirs) =
     (if dir = [] then createDirs fs currentPath dirs
      else
        let currentPath' = currentPath @ (if currentPath = [] then [] else ''/'') @ dir
        in if existsSync fs currentPath' then createDirs fs currentPath' dirs
           else (case mkdirSync fs currentPath' of
                   None \<Rightarrow> (False, fs)
                 | Some fs' \<Rightarrow> createDirs fs' currentPath' dirs))"

definition createBackupDirectory :: "filesystem \<Rightarrow> string \<Rightarrow> bool \<times> filesystem" where
  "createBackupDirectory fs backupPath = createDirs fs [] (splitOn (CHR ''/'') backupPath)"

text \<open>\<^verbatim>\<open>new Date().toISOString().replace(/[:.]/g, '-')\<close>, the clock's reading given.\<close>

definition generateBackupTimestamp :: "string \<Rightarrow> string" where
  "generateBackupTimestamp now =
     map (\<lambda>c. if c = CHR '':'' \<or> c = CHR ''.'' then CHR ''-'' else c) now"

record backup_options =
  type_opt :: "string option"
  note_opt :: "string option"

text \<open>
  \<^verbatim>\<open>createBackup\<close>. \<open>now1\<close> and \<open>now2\<close> are the two readings of the clock (the file
  name's and the document's). The result is the path, or \<open>None\<close> for the \<open>null\<close> of
  the \<^verbatim>\<open>catch\<close> branch, with the file system as the call leaves it.
\<close>

definition createBackup ::
  "filesystem \<Rightarrow> string \<Rightarrow> string \<Rightarrow> string \<Rightarrow> string \<Rightarrow> release list \<Rightarrow> backup_options
     \<Rightarrow> string option \<times> filesystem" where
  "createBackup fs now1 now2 owner' repo' releases' options =
     (let type' = (case type_opt options of None \<Rightarrow> ''release'' | Some t \<Rightarrow> t);
          isTest = (type' = ''test'');
          baseDir = (if isTest then ''./test-backups'' else ''./backups'');
          backupDir = baseDir @ ''/'' @ owner' @ ''/'' @ repo';
          filename = (if isTest then ''test-backup'' else ''releases-backup'')
      in case createBackupDirectory fs backupDir of
           (False, fs1) \<Rightarrow> (None, fs1)
         | (True, fs1) \<Rightarrow>
             let timestamp = generateBackupTimestamp now1;
                 backupFile = backupDir @ ''/'' @ filename @ ''-'' @ timestamp @ ''.json'';
                 backupData =
                   \<lparr>repository = owner' @ ''/'' @ repo',
                    backup_timestamp = now2,
                    total_releases = length releases',
                    releases = map (\<lambda>release.
                        \<lparr>release_id = release_id release,
                         tag_name = tag_name release,
                         name = name release,
                         body = body release,
                         created_at = created_at release,
                         published_at = published_at release,
                         html_url = html_url release\<rparr>) releases',
                    test_note =
                      (if isTest
                       then Some (case note_opt options of
                                    None \<Rightarrow> ''This is a TEST backup - no actual updates were made''
                                  | Some n \<Rightarrow>
                                      if n = []
                                      then ''This is a TEST backup - no actual updates were made''
                                      else n)
                       else None)\<rparr>
             in case writeFileSync fs1 backupFile (BackupDoc backupData) of
                  None \<Rightarrow> (None, fs1)
                | Some fs2 \<Rightarrow> (Some backupFile, fs2))"

definition createReleaseBackup ::
  "filesystem \<Rightarrow> string \<Rightarrow> string \<Rightarrow> string \<Rightarrow> string \<Rightarrow> release list
     \<Rightarrow> string option \<times> filesystem" where
  "createReleaseBackup fs now1 now2 owner' repo' releases' =
     createBackup fs now1 now2 owner' repo' releases'
       \<lparr>type_opt = Some ''release'', note_opt = None\<rparr>"

definition loadBackupData :: "filesystem \<Rightarrow> string \<Rightarrow> document option" where
  "loadBackupData fs backupFilePath = readJson fs backupFilePath"

text \<open>\<^verbatim>\<open>names.filter(dir => keep(fs.statSync(base/dir), dir))\<close>; a \<^verbatim>\<open>statSync\<close>
  that throws ends the scan.\<close>

fun filterStat ::
  "filesystem \<Rightarrow> string \<Rightarrow> (stats \<Rightarrow> string \<Rightarrow> bool) \<Rightarrow> string list \<Rightarrow> string list option" where
  "filterStat fs base keep [] = Some []"
| "filterStat fs base keep (dir # dirs) =
     (case statSync fs (base @ ''/'' @ dir) of
        None \<Rightarrow> None
      | Some st \<Rightarrow>
          (case filterStat fs base keep dirs of
             None \<Rightarrow> None
           | Some rest \<Rightarrow> Some (if keep st dir then dir # rest else rest)))"

definition endsWith :: "string \<Rightarrow> string \<Rightarrow> bool" where
  "endsWith suffix s = startsWith (rev suffix) (rev s)"

text \<open>\<^verbatim>\<open>files.map(file => ({file, path: base/file, size: fs.statSync(base/file).size}))\<close>.\<close>

fun statFiles :: "filesystem \<Rightarrow> string \<Rightarrow> string list \<Rightarrow> backup_file list option" where
  "statFiles fs base [] = Some []"
| "statFiles fs base (f # files) =
     (case statSync fs (base @ ''/'' @ f) of
        None \<Rightarrow> None
      | Some st \<Rightarrow>
          (case statFiles fs base files of
             None \<Rightarrow> None
           | Some rest \<Rightarrow>
               Some (\<lparr>file_name = f, path = base @ ''/'' @ f, file_size = stat_size st\<rparr> # rest)))"

definition listBackupFiles :: "filesystem \<Rightarrow> string \<Rightarrow> backup_file list option" where
  "listBackupFiles fs dir =
     (case readdirSync fs dir of
        None \<Rightarrow> None
      | Some files \<Rightarrow> statFiles fs dir (filter (endsWith ''.json'') files))"

text \<open>The two nested loops of \<^verbatim>\<open>createBackupIndex\<close>, the index under construction
  passed along.\<close>

fun indexRepoDirs ::
  "filesystem \<Rightarrow> string \<Rightarrow> string list \<Rightarrow> backup_index \<Rightarrow> backup_index option" where
  "indexRepoDirs fs ownerDir [] backupIndex = Some backupIndex"
| "indexRepoDirs fs ownerDir (repoDir # repoDirs) backupIndex =
     (case listBackupFiles fs (''./backups/'' @ ownerDir @ ''/'' @ repoDir) of
        None \<Rightarrow> None
      | Some backupFiles \<Rightarrow>
          indexRepoDirs fs ownerDir repoDirs
            (backupIndex
               \<lparr>repositories := repositories backupIndex
                    @ [\<lparr>owner = ownerDir, repo = repoDir, backup_files = backupFiles\<rparr>],
                total_repositories := total_repositories backupIndex + 1\<rparr>))"

fun indexOwnerDirs ::
  "filesystem \<Rightarrow> string list \<Rightarrow> backup_index \<Rightarrow> backup_index option" where
  "indexOwnerDirs fs [] backupIndex = Some backupIndex"
| "indexOwnerDirs fs (ownerDir # ownerDirs) backupIndex =
     (case readdirSync fs (''./backups/'' @ ownerDir) of
        None \<Rightarrow> None
      | Some entries \<Rightarrow>
          (case filterStat fs (''./backups/'' @ ownerDir) (\<lambda>st dir. isDirectory st) entries of
             None \<Rightarrow> None
           | Some repoDirs \<Rightarrow>
               (case indexRepoDirs fs ownerDir repoDirs backupIndex of
                  None \<Rightarrow> None
                | Some backupIndex' \<Rightarrow> indexOwnerDirs fs ownerDirs backupIndex')))"

text \<open>The body of the \<^verbatim>\<open>try\<close> of \<^verbatim>\<open>createBackupIndex\<close> up to the write: the
  index document (\<open>None\<close> when a call of the scan throws).\<close>

definition scanBackupIndex :: "filesystem \<Rightarrow> string \<Rightarrow> backup_index option" where
  "scanBackupIndex fs now =
     (let backupIndex =
            \<lparr>index_created_at = now, total_repositories = 0, index_total_releases = 0,
             repositories = []\<rparr>
      in if existsSync fs ''./backups''
         then (case readdirSync fs ''./backups'' of
                 None \<Rightarrow> None
               | Some entries \<Rightarrow>
                   (case filterStat fs ''./backups''
                           (\<lambda>st dir. isDirectory st \<and> dir \<noteq> ''backup-index.json'') entries of
                      None \<Rightarrow> None
                    | Some ownerDirs \<Rightarrow> indexOwnerDirs fs ownerDirs backupIndex))
         else Some backupIndex)"

definition createBackupIndex :: "filesystem \<Rightarrow> string \<Rightarrow> string option \<times> filesystem" where
  "createBackupIndex fs now =
     (let backupIndexFile = ''./backups/backup-index.json''
      in case scanBackupIndex fs now of
           None \<Rightarrow> (None, fs)
         | Some backupIndex \<Rightarrow>
             (case writeFileSync fs backupIndexFile (IndexDoc backupIndex) of
                None \<Rightarrow> (None, fs)
              | Some fs' \<Rightarrow> (Some backupIndexFile, fs')))"

subsection \<open>The remote API and the state of a run\<close>

text \<open>
  An update-body call, as \<^verbatim>\<open>octokit.rest.repos.updateRelease\<close> receives it. The
  state of a run is the file system and the trace of what the run did so far: listings,
  backups (with the path written, or \<open>None\<close>) and update-body calls issued. The remote
  answers a listing with the releases or throws (\<open>None\<close>); whether an update-body call
  goes through may depend on the call and on everything that happened before it.
\<close>

record update_call =
  call_owner :: string
  call_repo :: string
  call_release_id :: int
  call_body :: "string option"

datatype event =
    ListReleases string string
  | Backup string string "string option"
  | UpdateRelease update_call

record octokit =
  listReleases :: "string \<Rightarrow> string \<Rightarrow> release list option"
  updateReleaseOk :: "event list \<Rightarrow> update_call \<Rightarrow> bool"

record world =
  disk :: filesystem
  trace :: "event list"

text \<open>The update-body calls of a trace, in order.\<close>

fun updateCalls :: "event list \<Rightarrow> update_call list" where
  "updateCalls [] = []"
| "updateCalls (UpdateRelease c # es) = c # updateCalls es"
| "updateCalls (e # es) = updateCalls es"

subsection \<open>The update orchestrator (\<open>update-release-contributors.mjs\<close>)\<close>

definition getAllReleases ::
  "octokit \<Rightarrow> string \<Rightarrow> string \<Rightarrow> world \<Rightarrow> release list \<times> world" where
  "getAllReleases oct owner' repo' w =
     (let w' = w\<lparr>trace := trace w @ [ListReleases owner' repo']\<rparr>
      in case listReleases oct owner' repo' of
           Some rs \<Rightarrow> (rs, w')
         | None \<Rightarrow> ([], w'))"

definition updateRelease ::
  "octokit \<Rightarrow> username_mapping \<Rightarrow> string \<Rightarrow> string \<Rightarrow> int \<Rightarrow> release \<Rightarrow> world
     \<Rightarrow> bool \<times> world" where
  "updateRelease oct usernameMapping owner' repo' releaseId releaseData w =
     (let updatedBody = updateUsernamesInReleaseNotes (body releaseData) usernameMapping
      in if updatedBody = body releaseData then (False, w)
         else
           let call = \<lparr>call_owner = owner', call_repo = repo', call_release_id = releaseId,
                       call_body = updatedBody\<rparr>
           in (updateReleaseOk oct (trace w) call,
               w\<lparr>trace := trace w @ [UpdateRelease call]\<rparr>))"

definition backupReleaseNotes ::
  "string \<Rightarrow> string \<Rightarrow> string \<Rightarrow> string \<Rightarrow> release list \<Rightarrow> world \<Rightarrow> string option \<times> world" where
  "backupReleaseNotes now1 now2 owner' repo' releases' w =
     (case createReleaseBackup (disk w) now1 now2 owner' repo' releases' of
        (backupFile, fs') \<Rightarrow>
          (backupFile,
           w\<lparr>disk := fs', trace := trace w @ [Backup owner' repo' backupFile]\<rparr>))"

record repo_result =
  processed :: nat
  updated :: nat
  backupFile :: "string option"
  error :: bool

text \<open>The \<^verbatim>\<open>for\<close> loop of \<^verbatim>\<open>processRepositoryReleases\<close> over the releases.\<close>

fun updateEach ::
  "octokit \<Rightarrow> username_mapping \<Rightarrow> string \<Rightarrow> string \<Rightarrow> release list \<Rightarrow> nat \<Rightarrow> world
     \<Rightarrow> nat \<times> world" where
  "updateEach oct usernameMapping owner' repo' [] updatedCount w = (updatedCount, w)"
| "updateEach oct usernameMapping owner' repo' (r # rs) updatedCount w =
     (case updateRelease oct usernameMapping owner' repo' (release_id r) r w of
        (wasUpdated, w') \<Rightarrow>
          updateEach oct usernameMapping owner' repo' rs
            (if wasUpdated then updatedCount + 1 else updatedCount) w')"

definition processRepositoryReleases ::
  "octokit \<Rightarrow> username_mapping \<Rightarrow> string \<Rightarrow> string \<Rightarrow> string \<Rightarrow> string \<Rightarrow> world
     \<Rightarrow> repo_result \<times> world" where
  "processRepositoryReleases oct usernameMapping now1 now2 owner' repo' w =
     (case getAllReleases oct owner' repo' w of
        (releases', w1) \<Rightarrow>
          if length releases' = 0
          then (\<lparr>processed = 0, updated = 0, backupFile = None, error = False\<rparr>, w1)
          else
            (case backupReleaseNotes now1 now2 owner' repo' releases' w1 of
               (backupFile', w2) \<Rightarrow>
                 (case updateEach oct usernameMapping owner' repo' releases' 0 w2 of
                    (updatedCount, w3) \<Rightarrow>
                      (\<lparr>processed = length releases', updated = updatedCount,
                        backupFile = backupFile', error = False\<rparr>, w3))))"

subsection \<open>The restore tool (\<open>restore-from-backup.mjs\<close>)\<close>

text \<open>The fallback scan of \<^verbatim>\<open>listAvailableBackups\<close>, the list under construction
  passed along.\<close>

fun scanRepoDirs ::
  "filesystem \<Rightarrow> string \<Rightarrow> string list \<Rightarrow> backup_entry list \<Rightarrow> backup_entry list option" where
  "scanRepoDirs fs ownerDir [] backups = Some backups"
| "scanRepoDirs fs ownerDir (repoDir # repoDirs) backups =
     (case listBackupFiles fs (''./backups/'' @ ownerDir @ ''/'' @ repoDir) of
        None \<Rightarrow> None
      | Some backupFiles \<Rightarrow>
          scanRepoDirs fs ownerDir repoDirs
            (backups @ [\<lparr>owner = ownerDir, repo = repoDir, backup_files = backupFiles\<rparr>]))"

fun scanOwnerDirs ::
  "filesystem \<Rightarrow> string list \<Rightarrow> backup_entry list \<Rightarrow> backup_entry list option" where
  "scanOwnerDirs fs [] backups = Some backups"
| "scanOwnerDirs fs (ownerDir # ownerDirs) backups =
     (case readdirSync fs (''./backups/'' @ ownerDir) of
        None \<Rightarrow> None
      | Some entries \<Rightarrow>
          (case filterStat fs (''./backups/'' @ ownerDir) (\<lambda>st dir. isDirectory st) entries of
             None \<Rightarrow> None
           | Some repoDirs \<Rightarrow>
               (case scanRepoDirs fs ownerDir repoDirs backups of
                  None \<Rightarrow> None
                | Some backups' \<Rightarrow> scanOwnerDirs fs ownerDirs backups')))"

definition listAvailableBackups :: "filesystem \<Rightarrow> backup_entry list" where
  "listAvailableBackups fs =
     (if \<not> existsSync fs ''./backups'' then []
      else if existsSync fs ''./backups/backup-index.json''
      then (case readJson fs ''./backups/backup-index.json'' of
              None \<Rightarrow> []
            | Some (IndexDoc indexData) \<Rightarrow> repositories indexData
            | Some _ \<Rightarrow> [])
      else (case readdirSync fs ''./backups'' of
              None \<Rightarrow> []
            | Some entries \<Rightarrow>
                (case filterStat fs ''./backups'' (\<lambda>st dir. isDirectory st) entries of
                   None \<Rightarrow> []
                 | Some ownerDirs \<Rightarrow>
                     (case scanOwnerDirs fs ownerDirs [] of
                        None \<Rightarrow> []
                      | Some backups \<Rightarrow> backups))))"

definition restoreRelease ::
  "octokit \<Rightarrow> string \<Rightarrow> string \<Rightarrow> int \<Rightarrow> backup_release \<Rightarrow> world \<Rightarrow> bool \<times> world" where
  "restoreRelease oct owner' repo' releaseId backupData w =
     (let call = \<lparr>call_owner = owner', call_repo = repo', call_release_id = releaseId,
                  call_body = body backupData\<rparr>
      in (updateReleaseOk oct (trace w) call, w\<lparr>trace := trace w @ [UpdateRelease call]\<rparr>))"

record restore_result =
  restore_processed :: nat
  restored :: nat
  restore_error :: bool

text \<open>The \<^verbatim>\<open>for\<close> loop of \<^verbatim>\<open>restoreRepositoryFromBackup\<close> over the backed-up
  releases; \<^verbatim>\<open>currentReleases.find\<close> gives the first live release with the tag.\<close>

fun restoreEach ::
  "octokit \<Rightarrow> string \<Rightarrow> string \<Rightarrow> release list \<Rightarrow> backup_release list \<Rightarrow> nat \<Rightarrow> world
     \<Rightarrow> nat \<times> world" where
  "restoreEach oct owner' repo' currentReleases [] restoredCount w = (restoredCount, w)"
| "restoreEach oct owner' repo' currentReleases (backupRelease # rest) restoredCount w =
     (case find (\<lambda>r. tag_name r = tag_name backupRelease) currentReleases of
        None \<Rightarrow> restoreEach oct owner' repo' currentReleases rest restoredCount w
      | Some currentRelease \<Rightarrow>
          (case restoreRelease oct owner' repo' (release_id currentRelease) backupRelease w of
             (wasRestored, w') \<Rightarrow>
               restoreEach oct owner' repo' currentReleases rest
                 (if wasRestored then restoredCount + 1 else restoredCount) w'))"

definition restoreRepositoryFromBackup ::
  "octokit \<Rightarrow> string \<Rightarrow> string \<Rightarrow> string \<Rightarrow> world \<Rightarrow> restore_result \<times> world" where
  "restoreRepositoryFromBackup oct owner' repo' backupFile' w =
     (case readJson (disk w) backupFile' of
        None \<Rightarrow> (\<lparr>restore_processed = 0, restored = 0, restore_error = True\<rparr>, w)
      | Some backupData \<Rightarrow>
          let backedUp = (case backupData of BackupDoc d \<Rightarrow> releases d | _ \<Rightarrow> [])
          in if backedUp = []
             then (\<lparr>restore_processed = 0, restored = 0, restore_error = False\<rparr>, w)
             else
               let w1 = w\<lparr>trace := trace w @ [ListReleases owner' repo']\<rparr>
               in case listReleases oct owner' repo' of
                    None \<Rightarrow> (\<lparr>restore_processed = 0, restored = 0, restore_error = True\<rparr>, w1)
                  | Some currentReleases \<Rightarrow>
                      (case restoreEach oct owner' repo' currentReleases backedUp 0 w1 of
                         (restoredCount, w2) \<Rightarrow>
                           (\<lparr>restore_processed = length backedUp, restored = restoredCount,
                             restore_error = False\<rparr>, w2)))"

text \<open>
  \<^verbatim>\<open>main\<close> of the restore tool. \<open>choice\<close> is \<^verbatim>\<open>parseInt\<close> of the operator's
  answer (\<open>None\<close> for \<open>NaN\<close>, which passes both range tests and then fails on the
  missing entry); \<open>confirmed\<close> says whether the second answer, in lower case, is
  \<open>yes\<close> or \<open>y\<close>. A repository without backup files fails on \<^verbatim>\<open>backup_files[0].path\<close>.
\<close>

datatype restore_outcome =
    NoBackupsFound
  | InvalidSelection
  | RestoreCancelled
  | FatalError
  | RestoreDone string restore_result

definition restore_main ::
  "octokit \<Rightarrow> int option \<Rightarrow> bool \<Rightarrow> world \<Rightarrow> restore_outcome \<times> world" where
  "restore_main oct choice confirmed w =
     (let availableBackups = listAvailableBackups (disk w)
      in if length availableBackups = 0 then (NoBackupsFound, w)
         else
           (case choice of
              None \<Rightarrow> (FatalError, w)
            | Some n \<Rightarrow>
                let selectedIndex = n - 1
                in if selectedIndex < 0 \<or> selectedIndex \<ge> int (length availableBackups)
                   then (InvalidSelection, w)
                   else
                     let selectedBackup = availableBackups ! nat selectedIndex
                     in if \<not> confirmed then (RestoreCancelled, w)
                        else
                          (case backup_files selectedBackup of
                             [] \<Rightarrow> (FatalError, w)
                           | first # _ \<Rightarrow>
                               (case restoreRepositoryFromBackup oct (owner selectedBackup)
                                       (repo selectedBackup) (path first) w of
                                  (result, w') \<Rightarrow> (RestoreDone (path first) result, w')))))"

text \<open>
  The most recent of a repository's backup files. The file name holds the time of the
  backup in one fixed format (\<^verbatim>\<open>releases-backup-2024-01-01T00-00-00-000Z.json\<close>),
  so the later backup has the greater name.
\<close>

definition mostRecent :: "backup_file \<Rightarrow> backup_file list \<Rightarrow> bool" where
  "mostRecent f files = (f \<in> set files \<and> list_all (\<lambda>g. file_name g \<le> file_name f) files)"

subsection \<open>What a run is expected to send\<close>

text \<open>
  The vocabulary of the claims about the traces. \<open>listed\<close>: the releases a run works
  on (none when the listing throws). \<open>needsUpdate\<close>: the computed body differs from the
  current one. \<open>updateCallFor\<close>: the update-body call for a release.
  \<open>restoreCallFor\<close>: the call that restores a backed-up release, when a live release
  carries its tag (the first such release gives the id, the backup gives the body).
\<close>

definition listed :: "octokit \<Rightarrow> string \<Rightarrow> string \<Rightarrow> release list" where
  "listed oct owner' repo' = (case listReleases oct owner' repo' of None \<Rightarrow> [] | Some rs \<Rightarrow> rs)"

definition needsUpdate :: "username_mapping \<Rightarrow> release \<Rightarrow> bool" where
  "needsUpdate m r = (updateUsernamesInReleaseNotes (body r) m \<noteq> body r)"

definition updateCallFor :: "username_mapping \<Rightarrow> string \<Rightarrow> string \<Rightarrow> release \<Rightarrow> update_call" where
  "updateCallFor m owner' repo' r =
     \<lparr>call_owner = owner', call_repo = repo', call_release_id = release_id r,
      call_body = updateUsernamesInReleaseNotes (body r) m\<rparr>"

definition restoreCallFor ::
  "string \<Rightarrow> string \<Rightarrow> release list \<Rightarrow> backup_release \<Rightarrow> update_call option" where
  "restoreCallFor owner' repo' currentReleases b =
     map_option
       (\<lambda>c. \<lparr>call_owner = owner', call_repo = repo', call_release_id = release_id c,
             call_body = body b\<rparr>)
       (find (\<lambda>c. tag_name c = tag_name b) currentReleases)"

subsection \<open>Example states\<close>

text \<open>
  The inputs of the witnesses and of the evaluations below: a disk that holds nothing but
  the working directory and accepts every write, and one that refuses every write; two releases of
  \<open>acme/widgets\<close> as the remote lists them; remotes that list them, that fail to list,
  that list nothing, and one that rejects every update of release 101; two backups of
  the repository, written in January and in June, and a disk that holds both, listed in
  the order of their names; a backup of three releases, one of which is gone from the
  remote.
\<close>

definition fs_empty :: filesystem where
  "fs_empty =
     \<lparr>existsSync = (\<lambda>p. p = ''.''), readdirSync = (\<lambda>p. None), statSync = (\<lambda>p. None),
      readJson = (\<lambda>p. None), mkdirOk = (\<lambda>p. True), writeOk = (\<lambda>p. True)\<rparr>"

definition fs_readonly :: filesystem where
  "fs_readonly = fs_empty\<lparr>mkdirOk := (\<lambda>p. False), writeOk := (\<lambda>p. False)\<rparr>"

definition release_v1 :: release where
  "release_v1 =
     \<lparr>release_id = 101, tag_name = ''v1.0'', name = Some ''First'',
      body = Some ''Thanks @alice'', created_at = ''2023-12-01T00:00:00Z'',
      published_at = Some ''2023-12-02T00:00:00Z'',
      html_url = ''https://github.com/acme/widgets/releases/tag/v1.0'',
      remote_extra = [(''draft'', ''false''), (''prerelease'', ''false'')]\<rparr>"

definition release_v2 :: release where
  "release_v2 =
     \<lparr>release_id = 102, tag_name = ''v1.1'', name = None,
      body = Some ''No mentions here'', created_at = ''2024-01-01T00:00:00Z'',
      published_at = None,
      html_url = ''https://github.com/acme/widgets/releases/tag/v1.1'',
      remote_extra = [(''draft'', ''true'')]\<rparr>"

definition oct_acme :: octokit where
  "oct_acme =
     \<lparr>listReleases = (\<lambda>owner' repo'.
         if owner' = ''acme'' \<and> repo' = ''widgets'' then Some [release_v1, release_v2] else None),
      updateReleaseOk = (\<lambda>history call. True)\<rparr>"

definition oct_down :: octokit where
  "oct_down = \<lparr>listReleases = (\<lambda>owner' repo'. None), updateReleaseOk = (\<lambda>history call. True)\<rparr>"

definition oct_no_releases :: octokit where
  "oct_no_releases =
     \<lparr>listReleases = (\<lambda>owner' repo'. Some []), updateReleaseOk = (\<lambda>history call. True)\<rparr>"

definition oct_flaky :: octokit where
  "oct_flaky =
     \<lparr>listReleases = (\<lambda>owner' repo'. Some [release_v1, release_v2]),
      updateReleaseOk = (\<lambda>history call. call_release_id call \<noteq> 101)\<rparr>"

definition backup_jan :: backup_data where
  "backup_jan =
     \<lparr>repository = ''acme/widgets'', backup_timestamp = ''2024-01-01T00:00:00.000Z'',
      total_releases = 1,
      releases = [\<lparr>release_id = 101, tag_name = ''v1.0'', name = Some ''First'',
                   body = Some ''Thanks @alice'', created_at = ''2023-12-01T00:00:00Z'',
                   published_at = Some ''2023-12-02T00:00:00Z'',
                   html_url = ''https://github.com/acme/widgets/releases/tag/v1.0''\<rparr>],
      test_note = None\<rparr>"

definition backup_jun :: backup_data where
  "backup_jun =
     \<lparr>repository = ''acme/widgets'', backup_timestamp = ''2024-06-01T00:00:00.000Z'',
      total_releases = 1,
      releases = [\<lparr>release_id = 101, tag_name = ''v1.0'', name = Some ''First'',
                   body = Some ''Thanks @bob'', created_at = ''2023-12-01T00:00:00Z'',
                   published_at = Some ''2023-12-02T00:00:00Z'',
                   html_url = ''https://github.com/acme/widgets/releases/tag/v1.0''\<rparr>],
      test_note = None\<rparr>"

definition file_jan :: backup_file where
  "file_jan =
     \<lparr>file_name = ''releases-backup-2024-01-01T00-00-00-000Z.json'',
      path = ''./backups/acme/widgets/releases-backup-2024-01-01T00-00-00-000Z.json'',
      file_size = 512\<rparr>"

definition file_jun :: backup_file where
  "file_jun =
     \<lparr>file_name = ''releases-backup-2024-06-01T00-00-00-000Z.json'',
      path = ''./backups/acme/widgets/releases-backup-2024-06-01T00-00-00-000Z.json'',
      file_size = 512\<rparr>"

definition fs_two_backups :: filesystem where
  "fs_two_backups =
     \<lparr>existsSync = (\<lambda>p. p = ''.'' \<or> p = ''./backups'' \<or> p = ''./backups/acme''
          \<or> p = ''./backups/acme/widgets'' \<or> p = path file_jan \<or> p = path file_jun),
      readdirSync = (\<lambda>p.
          if p = ''./backups'' then Some [''acme'']
          else if p = ''./backups/acme'' then Some [''widgets'']
          else if p = ''./backups/acme/widgets'' then Some [file_name file_jan, file_name file_jun]
          else None),
      statSync = (\<lambda>p.
          if p = ''./backups'' \<or> p = ''./backups/acme'' \<or> p = ''./backups/acme/widgets''
          then Some \<lparr>isDirectory = True, stat_size = 4096\<rparr>
          else if p = path file_jan \<or> p = path file_jun
          then Some \<lparr>isDirectory = False, stat_size = 512\<rparr>
          else None),
      readJson = (\<lambda>p.
          if p = path file_jan then Some (BackupDoc backup_jan)
          else if p = path file_jun then Some (BackupDoc backup_jun)
          else None),
      mkdirOk = (\<lambda>p. True),
      writeOk = (\<lambda>p. True)\<rparr>"

definition backup_three :: backup_data where
  "backup_three =
     \<lparr>repository = ''acme/widgets'', backup_timestamp = ''2024-01-01T00:00:00.000Z'',
      total_releases = 3,
      releases =
        [\<lparr>release_id = 100, tag_name = ''v0.9'', name = None, body = Some ''Thanks @zed'',
          created_at = ''2023-11-01T00:00:00Z'', published_at = None,
          html_url = ''https://github.com/acme/widgets/releases/tag/v0.9''\<rparr>,
         \<lparr>release_id = 101, tag_name = ''v1.0'', name = Some ''First'',
          body = Some ''Thanks @alice'', created_at = ''2023-12-01T00:00:00Z'',
          published_at = Some ''2023-12-02T00:00:00Z'',
          html_url = ''https://github.com/acme/widgets/releases/tag/v1.0''\<rparr>,
         \<lparr>release_id = 102, tag_name = ''v1.1'', name = None, body = None,
          created_at = ''2024-01-01T00:00:00Z'', published_at = None,
          html_url = ''https://github.com/acme/widgets/releases/tag/v1.1''\<rparr>],
      test_note = None\<rparr>"

definition fs_restore :: filesystem where
  "fs_restore = fs_empty\<lparr>readJson := (\<lambda>p. if p = path file_jan then Some (BackupDoc backup_three) else None)\<rparr>"

section \<open>Properties\<close>

subsection \<open>The substitution engine\<close>

lemma startsWith_iff: "startsWith p s \<longleftrightarrow> (\<exists>r. s = p @ r)"
  by (induction p s rule: startsWith.induct) auto

lemma startsWith_self: "startsWith p (p @ r)"
  by (induction p) auto

lemma startsWith_take_drop: "startsWith p s \<Longrightarrow> s = p @ drop (length p) s"
  by (auto simp: startsWith_iff)

lemma startsWith_append_delim:
  "d \<notin> set p \<Longrightarrow> startsWith p (r @ d # s) = startsWith p r"
proof (induction p arbitrary: r)
  case Nil
  then show ?case by simp
next
  case (Cons x p)
  then show ?case by (cases r) auto
qed

lemma matchesAt_head: "matchesAt old new (c # cs) \<Longrightarrow> c = CHR ''@'' \<and> startsWith old cs"
  by (simp add: matchesAt_def Let_def)

lemma matchesAt_not_at: "c \<noteq> CHR ''@'' \<Longrightarrow> \<not> matchesAt old new (c # cs)"
  by (simp add: matchesAt_def Let_def)

lemma replaceAll_no_at_prefix:
  "CHR ''@'' \<notin> set b \<Longrightarrow> replaceAll old new (b @ s) = b @ replaceAll old new s"
  by (induction b) (auto simp: matchesAt_not_at)

lemma replaceEach_no_at_prefix:
  "CHR ''@'' \<notin> set b \<Longrightarrow> replaceEach m (b @ s) = b @ replaceEach m s"
  by (induction m arbitrary: s) (auto simp: replaceAll_no_at_prefix)

lemma replaceEach_Nil: "replaceEach m [] = []"
  by (induction m) auto

lemma set_lastSegment: "set (lastSegment s) \<subseteq> set s"
  unfolding lastSegment_def using set_takeWhileD by fastforce

lemma wordBoundary_append: "wordBoundary p (r @ d # s) = wordBoundary p (r @ [d])"
  by (cases r) (simp_all add: wordBoundary_def)

lemma matchesAt_delim:
  assumes "d \<noteq> CHR ''@''" "d \<notin> set old" "d \<noteq> CHR ''-''" "d \<notin> set (lastSegment new)"
  shows "matchesAt old new (p @ d # s) = matchesAt old new (p @ [d])"
proof (cases "startsWith (CHR ''@'' # old) p")
  case True
  then obtain r where p: "p = (CHR ''@'' # old) @ r" by (auto simp: startsWith_iff)
  have "startsWith (CHR ''-'' # lastSegment new) (r @ d # s)
        = startsWith (CHR ''-'' # lastSegment new) (r @ [d])"
    using assms by (simp add: startsWith_append_delim)
  then show ?thesis
    using wordBoundary_append[of _ r d s] by (simp add: matchesAt_def Let_def p startsWith_self)
next
  case False
  have "\<not> startsWith (CHR ''@'' # old) (p @ d # s)" "\<not> startsWith (CHR ''@'' # old) (p @ [d])"
    using False assms startsWith_append_delim[of d "CHR ''@'' # old" p] by auto
  then show ?thesis by (simp add: matchesAt_def Let_def)
qed

lemma replaceAll_split:
  assumes "d \<noteq> CHR ''@''" "d \<notin> set old" "d \<noteq> CHR ''-''" "d \<notin> set (lastSegment new)"
  shows "replaceAll old new (p @ d # s) = replaceAll old new (p @ [d]) @ replaceAll old new s"
proof (induction "length p" arbitrary: p rule: less_induct)
  case less
  show ?case
  proof (cases p)
    case Nil
    then show ?thesis using assms by (simp add: matchesAt_not_at)
  next
    case (Cons c q)
    have eq: "matchesAt old new (c # q @ d # s) = matchesAt old new (c # q @ [d])"
      using matchesAt_delim[OF assms, of "c # q" s] by simp
    show ?thesis
    proof (cases "matchesAt old new (c # q @ [d])")
      case True
      then have "startsWith old (q @ [d])" using matchesAt_head by blast
      then have "startsWith old q"
        using startsWith_append_delim[of d old q "[]"] assms by simp
      then obtain r where q: "q = old @ r" by (auto simp: startsWith_iff)
      have "length r < length p" using Cons q by simp
      from less[OF this] show ?thesis using True eq Cons q by simp
    next
      case False
      have "length q < length p" using Cons by simp
      from less[OF this] show ?thesis using False eq Cons by simp
    qed
  qed
qed

lemma replaceAll_keeps_last:
  assumes "d \<noteq> CHR ''@''" "d \<notin> set old"
  shows "\<exists>q. replaceAll old new (p @ [d]) = q @ [d]"
proof (induction "length p" arbitrary: p rule: less_induct)
  case less
  show ?case
  proof (cases p)
    case Nil
    then show ?thesis using assms by (simp add: matchesAt_not_at)
  next
    case (Cons c q)
    show ?thesis
    proof (cases "matchesAt old new (c # q @ [d])")
      case True
      then have "startsWith old (q @ [d])" using matchesAt_head by blast
      then have "startsWith old q"
        using startsWith_append_delim[of d old q "[]"] assms by simp
      then obtain r where q: "q = old @ r" by (auto simp: startsWith_iff)
      have "length r < length p" using Cons q by simp
      from less[OF this] obtain q' where "replaceAll old new (r @ [d]) = q' @ [d]" by blast
      then show ?thesis using True Cons q by simp
    next
      case False
      have "length q < length p" using Cons by simp
      from less[OF this] obtain q' where "replaceAll old new (q @ [d]) = q' @ [d]" by blast
      then show ?thesis using False Cons by simp
    qed
  qed
qed

lemma handle_char_dash: "handle_char (CHR ''-'')"
  by (simp add: handle_char_def)

lemma literal_handle_notin: "literal_handle s \<Longrightarrow> \<not> handle_char d \<Longrightarrow> d \<notin> set s"
  by (auto simp: literal_handle_def list_all_iff)

lemma replaceEach_split:
  assumes "literal_mapping m" "\<not> handle_char d" "d \<noteq> CHR ''@''"
  shows "replaceEach m (p @ d # s) = replaceEach m (p @ [d]) @ replaceEach m s"
  using assms(1)
proof (induction m arbitrary: p s)
  case Nil
  then show ?case by simp
next
  case (Cons e m)
  obtain old new where e: "e = (old, new)" by (cases e)
  from Cons.prems e have lit: "literal_handle old" "literal_handle new" "literal_mapping m"
    by (simp_all add: literal_mapping_def)
  have d1: "d \<notin> set old" using lit(1) assms(2) by (rule literal_handle_notin)
  have d2: "d \<noteq> CHR ''-''" using assms(2) handle_char_dash by auto
  have "d \<notin> set new" using lit(2) assms(2) by (rule literal_handle_notin)
  then have d3: "d \<notin> set (lastSegment new)" using set_lastSegment by blast
  note d = d1 d2 d3
  obtain q where q: "replaceAll old new (p @ [d]) = q @ [d]"
    using replaceAll_keeps_last[OF assms(3) d(1)] by blast
  have "replaceAll old new (p @ d # s) = q @ d # replaceAll old new s"
    using replaceAll_split[OF assms(3) d, of p s] q by simp
  then have "replaceEach (e # m) (p @ d # s) = replaceEach m (q @ d # replaceAll old new s)"
    by (simp add: e)
  also have "\<dots> = replaceEach m (q @ [d]) @ replaceEach m (replaceAll old new s)"
    by (rule Cons.IH[OF lit(3)])
  also have "replaceEach m (q @ [d]) = replaceEach (e # m) (p @ [d])"
    by (simp add: e q)
  also have "replaceEach m (replaceAll old new s) = replaceEach (e # m) s"
    by (simp add: e)
  finally show ?case .
qed

lemma replaceAll_mentionRewrite:
  "(old, new) \<in> set m \<Longrightarrow> mentionRewrite m s (replaceAll old new s)"
proof (induction old new s rule: replaceAll.induct)
  case (1 old new)
  then show ?case by (simp add: mr_end)
next
  case (2 old new c cs)
  show ?case
  proof (cases "matchesAt old new (c # cs)")
    case True
    then have c: "c = CHR ''@''" and "startsWith old cs" using matchesAt_head by blast+
    then have cs: "cs = old @ drop (length old) cs" using startsWith_take_drop by blast
    have "mentionRewrite m (CHR ''@'' # old @ drop (length old) cs)
            (CHR ''@'' # new @ replaceAll old new (drop (length old) cs))"
      using 2 True by (intro mr_mention) auto
    then show ?thesis using True c cs by simp
  next
    case False
    then show ?thesis using 2 by (simp add: mr_copy)
  qed
qed

lemma replaceEach_mentionRewrite:
  "set m' \<subseteq> set m \<Longrightarrow> (mentionRewrite m)\<^sup>*\<^sup>* s (replaceEach m' s)"
proof (induction m' arbitrary: s)
  case Nil
  then show ?case by simp
next
  case (Cons e m')
  obtain old new where e: "e = (old, new)" by (cases e)
  have "mentionRewrite m s (replaceAll old new s)"
    using Cons.prems e by (intro replaceAll_mentionRewrite) auto
  moreover have "(mentionRewrite m)\<^sup>*\<^sup>* (replaceAll old new s) (replaceEach m' (replaceAll old new s))"
    using Cons by simp
  ultimately show ?case using e by (simp add: converse_rtranclp_into_rtranclp)
qed

lemma handle_char_not_at: "handle_char c \<Longrightarrow> c \<noteq> CHR ''@''"
  by (auto simp: handle_char_def isWordChar_def)

lemma replaceEach_outside_mention:
  assumes m: "literal_mapping m" and b: "CHR ''@'' \<notin> set b" and p: "\<not> afterMention p"
  shows "replaceEach m (p @ b @ s) = replaceEach m p @ b @ replaceEach m s"
proof -
  define h where "h = rev (takeWhile handle_char (rev p))"
  define q where "q = rev (dropWhile handle_char (rev p))"
  have pq: "p = q @ h"
    unfolding q_def h_def by (metis rev_append rev_rev_ident takeWhile_dropWhile_id)
  have "\<forall>c\<in>set h. handle_char c"
    unfolding h_def using set_takeWhileD by fastforce
  then have h: "CHR ''@'' \<notin> set h" using handle_char_not_at by blast
  then have hb: "CHR ''@'' \<notin> set (h @ b)" using b by simp
  show ?thesis
  proof (cases "q = []")
    case True
    then have "CHR ''@'' \<notin> set p" using pq h by simp
    then have "CHR ''@'' \<notin> set (p @ b)" using b by simp
    from replaceEach_no_at_prefix[OF this, of m s] replaceEach_no_at_prefix[OF \<open>CHR ''@'' \<notin> set p\<close>, of m "[]"]
    show ?thesis by (simp add: replaceEach_Nil)
  next
    case False
    then obtain q0 d where q0: "q = q0 @ [d]" by (metis rev_exhaust)
    then have dw: "dropWhile handle_char (rev p) = d # rev q0"
      unfolding q_def by (metis rev.simps(2) rev_rev_ident rev_append append_Nil rev_swap)
    then have "\<not> handle_char d" by (metis hd_dropWhile list.sel(1) list.distinct(1))
    moreover have "d \<noteq> CHR ''@''" using p dw by (simp add: afterMention_def)
    ultimately have split: "\<And>x. replaceEach m (q0 @ d # x) = replaceEach m (q0 @ [d]) @ replaceEach m x"
      using replaceEach_split[OF m] by blast
    have "replaceEach m (p @ b @ s) = replaceEach m (q0 @ [d]) @ replaceEach m ((h @ b) @ s)"
      using split[of "h @ b @ s"] pq q0 by simp
    also have "replaceEach m ((h @ b) @ s) = (h @ b) @ replaceEach m s"
      using hb by (rule replaceEach_no_at_prefix)
    finally have 1: "replaceEach m (p @ b @ s) = replaceEach m (q0 @ [d]) @ h @ b @ replaceEach m s"
      by simp
    have "replaceEach m p = replaceEach m (q0 @ [d]) @ replaceEach m (h @ [])"
      using split[of h] pq q0 by simp
    also have "replaceEach m (h @ []) = h @ replaceEach m []"
      using h by (rule replaceEach_no_at_prefix)
    finally have 2: "replaceEach m p = replaceEach m (q0 @ [d]) @ h"
      by (simp add: replaceEach_Nil)
    show ?thesis using 1 2 by simp
  qed
qed

text \<open>For account handles the expression is the literal one.\<close>

lemma splitOn_absent: "c \<notin> set s \<Longrightarrow> splitOn c s = [s]"
  by (induction s) auto

lemma wordBoundaryAt_Some: "wordBoundaryAt (Some p) after = wordBoundary p after"
  by (simp add: wordBoundaryAt_def wordBoundary_def)

lemma regexMatchAt_literal:
  assumes "CHR ''|'' \<notin> set old" "CHR ''|'' \<notin> set (lastSegment new)"
  shows "regexMatchAt old new prev s
           = (if matchesAt old new s then Some (Suc (length old)) else None)"
proof -
  have a: "splitOn (CHR ''|'') (CHR ''@'' # old) = [CHR ''@'' # old]"
    using assms(1) by (intro splitOn_absent) simp
  have g: "splitOn (CHR ''|'') (CHR ''-'' # lastSegment new) = [CHR ''-'' # lastSegment new]"
    using assms(2) by (intro splitOn_absent) simp
  show ?thesis
    unfolding regexMatchAt_def a g
    by (simp add: Let_def matchesAt_def wordBoundaryAt_Some)
qed

lemma replaceRegex_literal:
  "CHR ''|'' \<notin> set old \<Longrightarrow> CHR ''|'' \<notin> set (lastSegment new) \<Longrightarrow>
     replaceRegex old new prev s = replaceAll old new s"
proof (induction old new s arbitrary: prev rule: replaceAll.induct)
  case (1 old new)
  then show ?case by (simp add: regexMatchAt_literal matchesAt_def)
next
  case (2 old new c cs)
  show ?case
  proof (cases "matchesAt old new (c # cs)")
    case True
    with 2 show ?thesis by (simp add: regexMatchAt_literal)
  next
    case False
    with 2 show ?thesis by (simp add: regexMatchAt_literal)
  qed
qed

lemma literal_handle_no_bar: "literal_handle s \<Longrightarrow> CHR ''|'' \<notin> set s"
  using literal_handle_notin[of s "CHR ''|''"] by (simp add: handle_char_def isWordChar_def)

lemma replaceEntries_literal: "literal_mapping m \<Longrightarrow> replaceEntries m s = replaceEach m s"
proof (induction m arbitrary: s)
  case Nil
  then show ?case by simp
next
  case (Cons e m)
  obtain old new where e: "e = (old, new)" by (cases e)
  from Cons.prems e have lit: "literal_handle old" "literal_handle new" "literal_mapping m"
    by (simp_all add: literal_mapping_def)
  have o: "CHR ''|'' \<notin> set old" using lit(1) by (rule literal_handle_no_bar)
  have "CHR ''|'' \<notin> set new" using lit(2) by (rule literal_handle_no_bar)
  then have n: "CHR ''|'' \<notin> set (lastSegment new)" using set_lastSegment by blast
  show ?case using Cons.IH[OF lit(3)] replaceRegex_literal[OF o n] by (simp add: e)
qed

lemma update_Some:
  "literal_mapping m \<Longrightarrow> updateUsernamesInReleaseNotes (Some b) m = Some (replaceEach m b)"
  by (simp add: updateUsernamesInReleaseNotes_def replaceEach_Nil replaceEntries_literal)

lemmas engine_defs = updateUsernamesInReleaseNotes_def regexMatchAt_def wordBoundaryAt_def
  matchesAt_def wordBoundary_def isWordChar_def lastSegment_def literal_mapping_def
  literal_handle_def handle_char_def Let_def

text \<open>
  Claim C6, amended. A text without the character \<open>@\<close> comes back unchanged, whatever
  the mapping of account handles (names of letters, digits, hyphens and underscores).
\<close>

theorem no_mention_unchanged:
  "literal_mapping m \<Longrightarrow> CHR ''@'' \<notin> set t \<Longrightarrow>
     updateUsernamesInReleaseNotes (Some t) m = Some t"
  using replaceEach_no_at_prefix[of t m "[]"] by (simp add: update_Some replaceEach_Nil)

theorem no_mention_unchanged_witness:
  "literal_mapping [(''alice'', ''bob'')] \<and> CHR ''@'' \<notin> set ''Thanks alice''
   \<and> updateUsernamesInReleaseNotes (Some ''Thanks alice'') [(''alice'', ''bob'')]
       = Some ''Thanks alice''"
  using no_mention_unchanged[of "[(''alice'', ''bob'')]" "''Thanks alice''"]
  by (simp add: literal_mapping_def literal_handle_def handle_char_def isWordChar_def)

text \<open>
  Claim C6 as stated, for every mapping, fails for an old name with a \<open>|\<close>: the
  expression \<^verbatim>\<open>@x|alice(?!-bob)\b\<close> has the alternative \<open>alice\<close>, which needs no
  \<open>@\<close>, and the bare name is rewritten.
\<close>

theorem alternation_rewrites_bare_name_counterexample:
  "CHR ''@'' \<notin> set ''Thanks alice''
   \<and> updateUsernamesInReleaseNotes (Some ''Thanks alice'') [(''x|alice'', ''bob'')]
       = Some ''Thanks @bob''"
  by (simp add: engine_defs)

text \<open>
  Claim C5, amended. Every pass of the engine only copies characters and replaces
  occurrences of \<open>@old\<close> by \<open>@new\<close> for entries of the mapping. A piece \<open>b\<close> of the
  text without \<open>@\<close> (an old handle, say) that is not the continuation of a mention (what
  stands before it does not end in an \<open>@\<close> followed by handle characters only) comes
  through unchanged: the result is the result for what stands before it, then \<open>b\<close>,
  then the result for what follows it.
\<close>

theorem only_mentions_rewritten:
  assumes "literal_mapping m"
  shows "(\<exists>t'. updateUsernamesInReleaseNotes (Some t) m = Some t'
              \<and> (mentionRewrite m)\<^sup>*\<^sup>* t t')
       \<and> (CHR ''@'' \<notin> set b \<and> \<not> afterMention p
            \<longrightarrow> (\<exists>p' s'. updateUsernamesInReleaseNotes (Some p) m = Some p'
                   \<and> updateUsernamesInReleaseNotes (Some s) m = Some s'
                   \<and> updateUsernamesInReleaseNotes (Some (p @ b @ s)) m = Some (p' @ b @ s')))"
  using replaceEach_mentionRewrite[of m m t] replaceEach_outside_mention[OF assms, of b p s]
  by (simp add: update_Some[OF assms])

theorem only_mentions_rewritten_witness:
  "literal_mapping [(''alice'', ''bob'')]
   \<and> CHR ''@'' \<notin> set ''alice''
   \<and> \<not> afterMention ''Thanks @alice and ''
   \<and> updateUsernamesInReleaseNotes (Some ''Thanks @alice and alice for the fix'')
        [(''alice'', ''bob'')] = Some ''Thanks @bob and alice for the fix''
   \<and> (mentionRewrite [(''alice'', ''bob'')])\<^sup>*\<^sup>*
        ''Thanks @alice and alice for the fix'' ''Thanks @bob and alice for the fix''"
  using only_mentions_rewritten[of "[(''alice'', ''bob'')]"
      "''Thanks @alice and alice for the fix''" "''alice''" "''Thanks @alice and ''"
      "'' for the fix''"]
  by (simp add: engine_defs afterMention_def)

text \<open>
  Claim C5 as stated fails for an old handle that occurs inside the mention of a longer
  old handle: in \<open>@lee-kim\<close> the occurrence of \<open>kim\<close> follows a hyphen, not \<open>@\<close>,
  and the entry for \<open>lee-kim\<close> rewrites the whole mention.
\<close>

theorem bare_handle_inside_mention_counterexample:
  "containsStr ''kim'' (''@lee-'' @ ''kim'')
   \<and> last ''@lee-'' \<noteq> CHR ''@''
   \<and> updateUsernamesInReleaseNotes (Some (''@lee-'' @ ''kim''))
        [(''kim'', ''kim-corp''), (''lee-kim'', ''lee-k'')] = Some ''@lee-k''
   \<and> \<not> containsStr ''kim'' ''@lee-k''"
  by (simp add: engine_defs afterMention_def)

text \<open>A second run: after a run, a mention either starts with a new handle or was left
  alone by every entry, and stays as it is.\<close>

lemma everywhere_drop: "everywhere P t \<Longrightarrow> everywhere P (drop k t)"
proof (induction t arbitrary: k)
  case Nil
  then show ?case by simp
next
  case (Cons c cs)
  then show ?case by (cases k) auto
qed

lemma everywhere_mono: "everywhere P t \<Longrightarrow> (\<And>v. P v \<Longrightarrow> Q v) \<Longrightarrow> everywhere Q t"
  by (induction t) auto

lemma startsWith_append_cases: "startsWith a (b @ c) \<Longrightarrow> startsWith a b \<or> startsWith b a"
proof (induction a arbitrary: b)
  case Nil
  then show ?case by simp
next
  case (Cons x a)
  then show ?case by (cases b) auto
qed

lemma startsWith_append_mono: "startsWith a b \<Longrightarrow> startsWith a (b @ c)"
  by (auto simp: startsWith_iff)

lemma wordBoundary_append_rest: "r \<noteq> [] \<Longrightarrow> wordBoundary p (r @ s) = wordBoundary p r"
  by (cases r) (simp_all add: wordBoundary_def)

lemma cannotMatch_sound:
  assumes "cannotMatch old new n"
  shows "\<not> matchesAt old new (CHR ''@'' # n @ rest)"
proof (cases "startsWith old n")
  case True
  then obtain r where n: "n = old @ r" by (auto simp: startsWith_iff)
  with assms True have
    c: "startsWith (CHR ''-'' # lastSegment new) r
        \<or> (r \<noteq> [] \<and> \<not> wordBoundary (last (CHR ''@'' # old)) r)"
    by (simp add: cannotMatch_def Let_def)
  then show ?thesis
  proof
    assume "startsWith (CHR ''-'' # lastSegment new) r"
    then have "startsWith (CHR ''-'' # lastSegment new) (r @ rest)"
      by (rule startsWith_append_mono)
    then show ?thesis by (simp add: matchesAt_def Let_def n)
  next
    assume "r \<noteq> [] \<and> \<not> wordBoundary (last (CHR ''@'' # old)) r"
    then have "\<not> wordBoundary (last (CHR ''@'' # old)) (r @ rest)"
      by (simp add: wordBoundary_append_rest)
    then show ?thesis by (simp add: matchesAt_def Let_def n)
  qed
next
  case False
  with assms have "\<not> startsWith n old" by (simp add: cannotMatch_def)
  with False have "\<not> startsWith old (n @ rest)" using startsWith_append_cases by blast
  then show ?thesis by (simp add: matchesAt_def Let_def)
qed

lemma inert_no_match:
  assumes "rerunSafe m" "inert m v" "(old, new) \<in> set m"
  shows "\<not> matchesAt old new v"
proof -
  from assms(2) obtain old' new' rest where e: "(old', new') \<in> set m" and v: "v = CHR ''@'' # new' @ rest"
    by (auto simp: inert_def startsWith_iff)
  from assms(1,3) e have "cannotMatch old new new'"
    by (auto simp: rerunSafe_def list_all_iff)
  then show ?thesis unfolding v by (rule cannotMatch_sound)
qed

lemma matchesAt_local:
  assumes "CHR ''@'' \<notin> set old" "CHR ''@'' \<notin> set (lastSegment new)"
  shows "matchesAt old new (CHR ''@'' # x @ CHR ''@'' # s) = matchesAt old new (CHR ''@'' # x)"
proof (cases "startsWith old x")
  case True
  then obtain r where x: "x = old @ r" by (auto simp: startsWith_iff)
  have la: "startsWith (CHR ''-'' # lastSegment new) (r @ CHR ''@'' # s)
        = startsWith (CHR ''-'' # lastSegment new) r"
    using assms(2) by (intro startsWith_append_delim) simp
  have wb: "wordBoundary p (r @ CHR ''@'' # s) = wordBoundary p r" for p
    by (cases r) (simp_all add: wordBoundary_def isWordChar_def)
  show ?thesis using la wb by (simp add: matchesAt_def Let_def x startsWith_self)
next
  case False
  then have "\<not> startsWith old (x @ CHR ''@'' # s)"
    using startsWith_append_delim[OF assms(1), of x s] by simp
  with False show ?thesis by (simp add: matchesAt_def Let_def)
qed

lemma literal_handle_no_at: "literal_handle s \<Longrightarrow> CHR ''@'' \<notin> set s"
  using literal_handle_notin[of s "CHR ''@''"] by (simp add: handle_char_def isWordChar_def)

lemma literal_mapping_entry:
  "literal_mapping m \<Longrightarrow> (old, new) \<in> set m \<Longrightarrow> literal_handle old \<and> literal_handle new"
  by (auto simp: literal_mapping_def list_all_iff)

lemma entry_no_at:
  assumes "literal_mapping m" "(old, new) \<in> set m"
  shows "CHR ''@'' \<notin> set old" "CHR ''@'' \<notin> set new" "CHR ''@'' \<notin> set (lastSegment new)"
proof -
  from literal_mapping_entry[OF assms] show "CHR ''@'' \<notin> set old" "CHR ''@'' \<notin> set new"
    by (simp_all add: literal_handle_no_at)
  then show "CHR ''@'' \<notin> set (lastSegment new)" using set_lastSegment by blast
qed

lemma inert_local:
  assumes "literal_mapping m"
  shows "inert m (CHR ''@'' # x @ CHR ''@'' # s) = inert m (CHR ''@'' # x)"
proof -
  have "startsWith new (x @ CHR ''@'' # s) = startsWith new x" if "(old, new) \<in> set m" for old new
    using entry_no_at(2)[OF assms that] by (rule startsWith_append_delim)
  then show ?thesis by (auto simp: inert_def)
qed

lemma settled_local:
  assumes "literal_mapping m" "D \<subseteq> set m"
  shows "settled m D (CHR ''@'' # x @ CHR ''@'' # s) = settled m D (CHR ''@'' # x)"
proof -
  have "matchesAt old new (CHR ''@'' # x @ CHR ''@'' # s) = matchesAt old new (CHR ''@'' # x)"
    if "(old, new) \<in> D" for old new
  proof -
    from that assms(2) have "(old, new) \<in> set m" by blast
    from entry_no_at(1,3)[OF assms(1) this] show ?thesis by (rule matchesAt_local)
  qed
  then show ?thesis using inert_local[OF assms(1)] by (auto simp: settled_def)
qed

lemma settled_not_at: "c \<noteq> CHR ''@'' \<Longrightarrow> settled m D (c # v)"
  by (auto simp: settled_def matchesAt_not_at)

lemma replaceAll_at_head:
  "\<exists>s'. replaceAll old new (CHR ''@'' # s) = CHR ''@'' # s'"
  by simp

lemma local_replaceAll:
  assumes loc: "\<And>x s. CHR ''@'' \<notin> set x \<Longrightarrow> P (CHR ''@'' # x @ CHR ''@'' # s) = P (CHR ''@'' # x)"
  shows "P (CHR ''@'' # replaceAll old new cs) = P (CHR ''@'' # cs)"
proof -
  define x where "x = takeWhile (\<lambda>c. c \<noteq> CHR ''@'') cs"
  define rest where "rest = dropWhile (\<lambda>c. c \<noteq> CHR ''@'') cs"
  have cs: "cs = x @ rest" by (simp add: x_def rest_def)
  have x: "CHR ''@'' \<notin> set x" unfolding x_def using set_takeWhileD by fastforce
  have r: "replaceAll old new cs = x @ replaceAll old new rest"
    unfolding cs using x by (rule replaceAll_no_at_prefix)
  show ?thesis
  proof (cases rest)
    case Nil
    then show ?thesis using r cs by simp
  next
    case (Cons c s)
    then have "c = CHR ''@''"
      using hd_dropWhile[of "\<lambda>c. c \<noteq> CHR ''@''" cs] by (simp add: rest_def)
    then have rest: "rest = CHR ''@'' # s" using Cons by simp
    obtain s' where s': "replaceAll old new rest = CHR ''@'' # s'"
      unfolding rest using replaceAll_at_head by blast
    have "P (CHR ''@'' # replaceAll old new cs) = P (CHR ''@'' # x @ CHR ''@'' # s')"
      by (simp add: r s')
    also have "\<dots> = P (CHR ''@'' # x)" using x by (rule loc)
    also have "\<dots> = P (CHR ''@'' # x @ CHR ''@'' # s)" using x by (rule loc[symmetric])
    finally show ?thesis by (simp add: cs rest)
  qed
qed

lemma everywhere_no_at_prefix:
  assumes "\<And>c v. c \<noteq> CHR ''@'' \<Longrightarrow> P (c # v)" "CHR ''@'' \<notin> set n" "everywhere P r"
  shows "everywhere P (n @ r)"
  using assms(2) by (induction n) (auto simp: assms(1,3))

lemma replaceAll_settled:
  "literal_mapping m \<Longrightarrow> (old, new) \<in> set m \<Longrightarrow> D \<subseteq> set m \<Longrightarrow> everywhere (settled m D) t
     \<Longrightarrow> everywhere (settled m (insert (old, new) D)) (replaceAll old new t)"
proof (induction old new t rule: replaceAll.induct)
  case (1 old new)
  then show ?case by simp
next
  case (2 old new c cs)
  note lit = "2.prems"(1) and e = "2.prems"(2) and D = "2.prems"(3)
  have D': "insert (old, new) D \<subseteq> set m" using D e by simp
  have here: "settled m D (c # cs)" and tail: "everywhere (settled m D) cs"
    using "2.prems"(4) by simp_all
  show ?case
  proof (cases "matchesAt old new (c # cs)")
    case True
    then have c: "c = CHR ''@''" using matchesAt_head by blast
    have "everywhere (settled m D) (drop (length old) cs)"
      using tail by (rule everywhere_drop)
    then have ih: "everywhere (settled m (insert (old, new) D))
        (replaceAll old new (drop (length old) cs))"
      using "2.IH"(1)[OF True lit e D] by simp
    have "inert m (CHR ''@'' # new @ replaceAll old new (drop (length old) cs))"
      unfolding inert_def using e by (intro bexI[of _ "(old, new)"]) (simp_all add: startsWith_self)
    then have first: "settled m (insert (old, new) D)
        (CHR ''@'' # new @ replaceAll old new (drop (length old) cs))"
      by (simp add: settled_def)
    have "everywhere (settled m (insert (old, new) D))
        (new @ replaceAll old new (drop (length old) cs))"
      using settled_not_at entry_no_at(2)[OF lit e] ih
      by (rule everywhere_no_at_prefix)
    with first True show ?thesis by simp
  next
    case False
    have ih: "everywhere (settled m (insert (old, new) D)) (replaceAll old new cs)"
      using "2.IH"(2)[OF False lit e D] tail by simp
    have "settled m (insert (old, new) D) (c # replaceAll old new cs)"
    proof (cases "c = CHR ''@''")
      case True
      have "settled m (insert (old, new) D) (CHR ''@'' # cs)"
        using here False True by (auto simp: settled_def)
      moreover have "settled m (insert (old, new) D) (CHR ''@'' # replaceAll old new cs)
          = settled m (insert (old, new) D) (CHR ''@'' # cs)"
        using settled_local[OF lit D'] by (rule local_replaceAll)
      ultimately show ?thesis using True by simp
    next
      case False
      then show ?thesis by (rule settled_not_at)
    qed
    with ih False show ?thesis by simp
  qed
qed

lemma everywhere_True: "everywhere (\<lambda>v. True) t"
  by (induction t) auto

lemma replaceEach_settled:
  "literal_mapping m \<Longrightarrow> set todo \<subseteq> set m \<Longrightarrow> D \<subseteq> set m \<Longrightarrow> everywhere (settled m D) t
     \<Longrightarrow> everywhere (settled m (D \<union> set todo)) (replaceEach todo t)"
proof (induction todo arbitrary: D t)
  case Nil
  then show ?case by simp
next
  case (Cons e todo)
  obtain old new where e: "e = (old, new)" by (cases e)
  from Cons.prems e have em: "(old, new) \<in> set m" and tm: "set todo \<subseteq> set m" by auto
  have "everywhere (settled m (insert (old, new) D)) (replaceAll old new t)"
    using Cons.prems(1) em Cons.prems(3,4) by (rule replaceAll_settled)
  moreover have "insert (old, new) D \<subseteq> set m" using em Cons.prems(3) by simp
  ultimately have "everywhere (settled m (insert (old, new) D \<union> set todo))
      (replaceEach todo (replaceAll old new t))"
    using Cons.IH[OF Cons.prems(1) tm] by blast
  then show ?case by (simp add: e)
qed

lemma replaceAll_quiet:
  "everywhere (\<lambda>v. \<not> matchesAt old new v) t \<Longrightarrow> replaceAll old new t = t"
  by (induction t) auto

lemma replaceEach_quiet:
  "everywhere (\<lambda>v. \<forall>(old, new) \<in> set todo. \<not> matchesAt old new v) t \<Longrightarrow> replaceEach todo t = t"
proof (induction todo)
  case Nil
  then show ?case by simp
next
  case (Cons e todo)
  obtain old new where e: "e = (old, new)" by (cases e)
  have "everywhere (\<lambda>v. \<not> matchesAt old new v) t"
    using Cons.prems by (rule everywhere_mono) (simp add: e)
  then have 1: "replaceAll old new t = t" by (rule replaceAll_quiet)
  have "everywhere (\<lambda>v. \<forall>(old, new) \<in> set todo. \<not> matchesAt old new v) t"
    using Cons.prems by (rule everywhere_mono) simp
  then show ?case using Cons.IH 1 by (simp add: e)
qed

lemma replaceEach_idempotent:
  assumes "literal_mapping m" "rerunSafe m"
  shows "replaceEach m (replaceEach m t) = replaceEach m t"
proof -
  have "everywhere (settled m {}) t"
    using everywhere_True by (rule everywhere_mono) (simp add: settled_def)
  then have "everywhere (settled m ({} \<union> set m)) (replaceEach m t)"
    using assms(1) by (intro replaceEach_settled) simp_all
  then have "everywhere (\<lambda>v. \<forall>(old, new) \<in> set m. \<not> matchesAt old new v) (replaceEach m t)"
  proof (rule everywhere_mono)
    fix v assume "settled m ({} \<union> set m) v"
    then show "\<forall>(old, new) \<in> set m. \<not> matchesAt old new v"
      using inert_no_match[OF assms(2)] by (auto simp: settled_def)
  qed
  then show ?thesis by (rule replaceEach_quiet)
qed

text \<open>
  Claim C2, amended. For a mapping of account handles in which no entry's expression can
  match the mention of a new handle (\<open>rerunSafe\<close>), running the engine on its own
  result changes nothing; the mapping of the specification's example,
  \<open>nghia-nguyen\<close> to \<open>nghia-nguyen-4321\<close>, is one.
\<close>

theorem rerun_changes_nothing:
  "literal_mapping m \<Longrightarrow> rerunSafe m \<Longrightarrow>
     updateUsernamesInReleaseNotes (updateUsernamesInReleaseNotes body' m) m
       = updateUsernamesInReleaseNotes body' m"
  by (cases body') (simp_all add: update_Some replaceEach_idempotent,
                    simp add: updateUsernamesInReleaseNotes_def)

theorem rerun_changes_nothing_witness:
  "literal_mapping [(''nghia-nguyen'', ''nghia-nguyen-4321'')]
   \<and> rerunSafe [(''nghia-nguyen'', ''nghia-nguyen-4321'')]
   \<and> updateUsernamesInReleaseNotes (Some ''cc @nghia-nguyen'')
        [(''nghia-nguyen'', ''nghia-nguyen-4321'')] = Some ''cc @nghia-nguyen-4321''
   \<and> updateUsernamesInReleaseNotes (Some ''cc @nghia-nguyen-4321'')
        [(''nghia-nguyen'', ''nghia-nguyen-4321'')] = Some ''cc @nghia-nguyen-4321''"
proof -
  have l: "literal_mapping [(''nghia-nguyen'', ''nghia-nguyen-4321'')]"
    by (simp add: engine_defs)
  have s: "rerunSafe [(''nghia-nguyen'', ''nghia-nguyen-4321'')]"
    by (simp add: rerunSafe_def cannotMatch_def engine_defs)
  have f: "updateUsernamesInReleaseNotes (Some ''cc @nghia-nguyen'')
        [(''nghia-nguyen'', ''nghia-nguyen-4321'')] = Some ''cc @nghia-nguyen-4321''"
    by (simp add: engine_defs)
  from rerun_changes_nothing[OF l s, of "Some ''cc @nghia-nguyen''"] f l s
  show ?thesis by simp
qed

text \<open>
  Claim C2 as stated fails when a new handle continues another entry's old handle: no
  new handle equals an old one here, the first run turns \<open>@alex\<close> into \<open>@sam-k\<close>,
  and the second run finds the mention \<open>@sam\<close> in it.
\<close>

theorem rerun_chains_counterexample:
  "updateUsernamesInReleaseNotes (Some ''@alex'') [(''sam'', ''samuel''), (''alex'', ''sam-k'')]
     = Some ''@sam-k''
   \<and> updateUsernamesInReleaseNotes (Some ''@sam-k'') [(''sam'', ''samuel''), (''alex'', ''sam-k'')]
     = Some ''@samuel-k''
   \<and> ''samuel'' \<noteq> ''alex'' \<and> ''sam-k'' \<noteq> ''sam''"
  by (simp add: engine_defs)

text \<open>
  A second run also changes the text when a new handle adds two hyphen-separated parts
  to its own old handle: the lookahead holds the last part only, and the suffix is
  appended again.
\<close>

lemma double_append_on_rerun:
  "updateUsernamesInReleaseNotes (Some ''Thanks @john'') [(''john'', ''john-doe-corp'')]
     = Some ''Thanks @john-doe-corp''
   \<and> updateUsernamesInReleaseNotes (Some ''Thanks @john-doe-corp'')
        [(''john'', ''john-doe-corp'')] = Some ''Thanks @john-doe-corp-doe-corp''"
  by (simp add: engine_defs)

subsection \<open>The backup manager\<close>

lemmas backup_defs = createBackup_def createBackupDirectory_def mkdirSync_def writeFileSync_def
  generateBackupTimestamp_def loadBackupData_def createReleaseBackup_def

lemmas scan_defs = scanBackupIndex_def createBackupIndex_def listBackupFiles_def endsWith_def
  writeFileSync_def listAvailableBackups_def

lemmas fixture_defs = fs_two_backups_def file_jan_def file_jun_def backup_jan_def backup_jun_def
  release_v1_def release_v2_def oct_acme_def fs_empty_def fs_readonly_def

text \<open>
  Claim C8. When \<^verbatim>\<open>createBackup\<close> returns a path, the document loaded back from
  that path holds, per release and in the order of the input, the seven captured fields
  (a \<open>backup_release\<close> has no other field), and \<open>total_releases\<close> is the length of
  the input list.
\<close>

theorem createBackup_record:
  assumes "createBackup fs now1 now2 ow rp rs opts = (Some p, fs')"
  shows "\<exists>d. loadBackupData fs' p = Some (BackupDoc d)
           \<and> repository d = ow @ ''/'' @ rp
           \<and> total_releases d = length rs
           \<and> map release_id (releases d) = map release_id rs
           \<and> map tag_name (releases d) = map tag_name rs
           \<and> map name (releases d) = map name rs
           \<and> map body (releases d) = map body rs
           \<and> map created_at (releases d) = map created_at rs
           \<and> map published_at (releases d) = map published_at rs
           \<and> map html_url (releases d) = map html_url rs"
  using assms
  by (auto simp: createBackup_def Let_def writeFileSync_def loadBackupData_def comp_def
           split: prod.splits bool.splits option.splits if_splits)

theorem createBackup_record_witness:
  "fst (createBackup fs_empty ''2024-01-01T00:00:00.000Z'' ''2024-01-01T00:00:00.001Z''
          ''acme'' ''widgets'' [release_v1, release_v2] \<lparr>type_opt = None, note_opt = None\<rparr>)
     = Some ''./backups/acme/widgets/releases-backup-2024-01-01T00-00-00-000Z.json''
   \<and> (\<exists>d. loadBackupData
          (snd (createBackup fs_empty ''2024-01-01T00:00:00.000Z'' ''2024-01-01T00:00:00.001Z''
             ''acme'' ''widgets'' [release_v1, release_v2] \<lparr>type_opt = None, note_opt = None\<rparr>))
          ''./backups/acme/widgets/releases-backup-2024-01-01T00-00-00-000Z.json''
          = Some (BackupDoc d)
        \<and> total_releases d = 2
        \<and> map tag_name (releases d) = [''v1.0'', ''v1.1''])"
proof -
  define c where "c = createBackup fs_empty ''2024-01-01T00:00:00.000Z''
      ''2024-01-01T00:00:00.001Z'' ''acme'' ''widgets'' [release_v1, release_v2]
      \<lparr>type_opt = None, note_opt = None\<rparr>"
  define p where "p = ''./backups/acme/widgets/releases-backup-2024-01-01T00-00-00-000Z.json''"
  have f: "fst c = Some p"
    unfolding c_def p_def by (simp add: backup_defs fs_empty_def Let_def)
  then have "c = (Some p, snd c)" by (metis prod.collapse)
  from createBackup_record[OF this[unfolded c_def]] obtain d where
    d: "loadBackupData (snd c) p = Some (BackupDoc d)"
       "total_releases d = length [release_v1, release_v2]"
       "map tag_name (releases d) = map tag_name [release_v1, release_v2]"
    unfolding c_def by blast
  have "total_releases d = 2" "map tag_name (releases d) = [''v1.0'', ''v1.1'']"
    using d(2,3) by (simp_all add: release_v1_def release_v2_def)
  with d(1) f have "fst c = Some p \<and> (\<exists>d. loadBackupData (snd c) p = Some (BackupDoc d)
        \<and> total_releases d = 2 \<and> map tag_name (releases d) = [''v1.0'', ''v1.1''])"
    by (intro conjI exI[of _ d]) simp_all
  then show ?thesis unfolding c_def p_def .
qed

lemma indexRepoDirs_total:
  "indexRepoDirs fs od rds idx = Some idx' \<Longrightarrow> index_total_releases idx' = index_total_releases idx"
  by (induction fs od rds idx rule: indexRepoDirs.induct) (auto split: option.splits)

lemma indexOwnerDirs_total:
  "indexOwnerDirs fs ods idx = Some idx' \<Longrightarrow> index_total_releases idx' = index_total_releases idx"
proof (induction fs ods idx rule: indexOwnerDirs.induct)
  case (1 fs backupIndex)
  then show ?case by simp
next
  case (2 fs ownerDir ownerDirs backupIndex)
  then show ?case
    by (auto split: option.splits dest: indexRepoDirs_total)
qed

lemma scanBackupIndex_total:
  "scanBackupIndex fs now = Some idx \<Longrightarrow> index_total_releases idx = 0"
  by (auto simp: scanBackupIndex_def Let_def split: if_splits option.splits
           dest: indexOwnerDirs_total)

text \<open>
  Claim C9. Whatever the disk holds, the index document that \<^verbatim>\<open>createBackupIndex\<close>
  writes has \<open>total_releases\<close> 0: the scan counts repositories and never touches the
  field.
\<close>

theorem index_total_releases_zero:
  "createBackupIndex fs now = (Some p, fs') \<Longrightarrow>
     \<exists>idx. readJson fs' p = Some (IndexDoc idx) \<and> index_total_releases idx = 0"
  by (auto simp: createBackupIndex_def Let_def writeFileSync_def
           split: option.splits if_splits dest: scanBackupIndex_total)

lemma fs_two_backups_index:
  "scanBackupIndex fs_two_backups ''2024-06-02T00:00:00.000Z''
     = Some \<lparr>index_created_at = ''2024-06-02T00:00:00.000Z'', total_repositories = 1,
             index_total_releases = 0,
             repositories = [\<lparr>owner = ''acme'', repo = ''widgets'',
                              backup_files = [file_jan, file_jun]\<rparr>]\<rparr>"
  by (simp add: scan_defs fixture_defs Let_def)

theorem index_total_releases_zero_witness:
  "fst (createBackupIndex fs_two_backups ''2024-06-02T00:00:00.000Z'')
     = Some ''./backups/backup-index.json''
   \<and> (\<exists>idx. readJson (snd (createBackupIndex fs_two_backups ''2024-06-02T00:00:00.000Z''))
              ''./backups/backup-index.json'' = Some (IndexDoc idx)
          \<and> index_total_releases idx = 0
          \<and> total_repositories idx = 1)"
proof -
  define c where "c = createBackupIndex fs_two_backups ''2024-06-02T00:00:00.000Z''"
  define p where "p = ''./backups/backup-index.json''"
  have f: "fst c = Some p"
    unfolding c_def p_def
    by (simp add: createBackupIndex_def fs_two_backups_index writeFileSync_def Let_def)
       (simp add: fs_two_backups_def)
  have t: "\<And>idx. readJson (snd c) p = Some (IndexDoc idx) \<Longrightarrow> total_repositories idx = 1"
    unfolding c_def p_def
    by (simp add: createBackupIndex_def fs_two_backups_index writeFileSync_def Let_def)
       (auto simp add: fs_two_backups_def)
  from f have "c = (Some p, snd c)" by (metis prod.collapse)
  from index_total_releases_zero[OF this[unfolded c_def]] obtain idx where
    i: "readJson (snd c) p = Some (IndexDoc idx)" "index_total_releases idx = 0"
    unfolding c_def by blast
  with t have "total_repositories idx = 1" by simp
  with i f have "fst c = Some p \<and> (\<exists>idx. readJson (snd c) p = Some (IndexDoc idx)
      \<and> index_total_releases idx = 0 \<and> total_repositories idx = 1)"
    by (intro conjI exI[of _ idx]) simp_all
  then show ?thesis unfolding c_def p_def .
qed

subsection \<open>The update orchestrator\<close>

lemma updateCalls_append: "updateCalls (xs @ ys) = updateCalls xs @ updateCalls ys"
  by (induction xs rule: updateCalls.induct) auto

lemma updateEach_trace:
  "updateEach oct m ow rp rs n w = (n', w') \<Longrightarrow>
     updateCalls (trace w') = updateCalls (trace w) @ map (updateCallFor m ow rp) (filter (needsUpdate m) rs)
     \<and> disk w' = disk w \<and> n \<le> n' \<and> n' \<le> n + length (filter (needsUpdate m) rs)"
proof (induction rs arbitrary: n w)
  case Nil
  then show ?case by simp
next
  case (Cons r rs)
  obtain b w1 where u: "updateRelease oct m ow rp (release_id r) r w = (b, w1)"
    by (cases "updateRelease oct m ow rp (release_id r) r w")
  with Cons.prems have rest: "updateEach oct m ow rp rs (if b then n + 1 else n) w1 = (n', w')"
    by simp
  note ih = Cons.IH[OF rest]
  show ?case
  proof (cases "needsUpdate m r")
    case True
    with u have "trace w1 = trace w @ [UpdateRelease (updateCallFor m ow rp r)]" "disk w1 = disk w"
      by (auto simp: updateRelease_def needsUpdate_def updateCallFor_def Let_def)
    with ih True show ?thesis by (auto simp: updateCalls_append split: if_splits)
  next
    case False
    with u have "w1 = w" "\<not> b"
      by (auto simp: updateRelease_def needsUpdate_def Let_def)
    with ih False show ?thesis by auto
  qed
qed

lemmas run_defs = processRepositoryReleases_def getAllReleases_def backupReleaseNotes_def
  updateRelease_def listed_def needsUpdate_def updateCallFor_def

text \<open>
  Claim C3. The update-body calls that \<^verbatim>\<open>processRepositoryReleases\<close> issues are,
  in order, the calls for exactly those listed releases whose computed body differs from
  the current one; when no listed release differs, the result has \<open>updated\<close> 0 and no
  update-body call is issued.
\<close>

theorem update_call_iff_changed:
  assumes "processRepositoryReleases oct m now1 now2 ow rp w = (res, w')"
  shows "updateCalls (trace w')
           = updateCalls (trace w)
             @ map (updateCallFor m ow rp) (filter (needsUpdate m) (listed oct ow rp))
       \<and> (list_all (\<lambda>r. \<not> needsUpdate m r) (listed oct ow rp)
            \<longrightarrow> updated res = 0 \<and> updateCalls (trace w') = updateCalls (trace w))"
proof -
  let ?rs = "listed oct ow rp"
  let ?w1 = "w\<lparr>trace := trace w @ [ListReleases ow rp]\<rparr>"
  have g: "getAllReleases oct ow rp w = (?rs, ?w1)"
    by (simp add: getAllReleases_def listed_def Let_def split: option.splits)
  have none: "list_all (\<lambda>r. \<not> needsUpdate m r) ?rs \<Longrightarrow> filter (needsUpdate m) ?rs = []"
    by (simp add: list_all_iff)
  show ?thesis
  proof (cases "?rs = []")
    case True
    with assms g show ?thesis
      by (auto simp: processRepositoryReleases_def updateCalls_append)
  next
    case False
    obtain bf w2 where b: "backupReleaseNotes now1 now2 ow rp ?rs ?w1 = (bf, w2)"
      by (cases "backupReleaseNotes now1 now2 ow rp ?rs ?w1")
    then have t2: "trace w2 = trace w @ [ListReleases ow rp, Backup ow rp bf]"
      by (auto simp: backupReleaseNotes_def split: prod.splits)
    obtain n w3 where e: "updateEach oct m ow rp ?rs 0 w2 = (n, w3)"
      by (cases "updateEach oct m ow rp ?rs 0 w2")
    from assms g b e False have r: "updated res = n" "w' = w3"
      by (auto simp: processRepositoryReleases_def)
    from updateEach_trace[OF e] t2 r none show ?thesis
      by (auto simp: updateCalls_append)
  qed
qed

theorem update_call_iff_changed_witness:
  "list_all (\<lambda>r. \<not> needsUpdate [(''carol'', ''dave'')] r) (listed oct_acme ''acme'' ''widgets'')
   \<and> listed oct_acme ''acme'' ''widgets'' = [release_v1, release_v2]
   \<and> updated (fst (processRepositoryReleases oct_acme [(''carol'', ''dave'')]
        ''2024-01-01T00:00:00.000Z'' ''2024-01-01T00:00:00.001Z'' ''acme'' ''widgets''
        \<lparr>disk = fs_empty, trace = []\<rparr>)) = 0
   \<and> updateCalls (trace (snd (processRepositoryReleases oct_acme [(''carol'', ''dave'')]
        ''2024-01-01T00:00:00.000Z'' ''2024-01-01T00:00:00.001Z'' ''acme'' ''widgets''
        \<lparr>disk = fs_empty, trace = []\<rparr>))) = []"
proof -
  define c where "c = processRepositoryReleases oct_acme [(''carol'', ''dave'')]
        ''2024-01-01T00:00:00.000Z'' ''2024-01-01T00:00:00.001Z'' ''acme'' ''widgets''
        \<lparr>disk = fs_empty, trace = []\<rparr>"
  have l: "listed oct_acme ''acme'' ''widgets'' = [release_v1, release_v2]"
    by (simp add: listed_def oct_acme_def)
  have n: "list_all (\<lambda>r. \<not> needsUpdate [(''carol'', ''dave'')] r) (listed oct_acme ''acme'' ''widgets'')"
    unfolding l by (simp add: needsUpdate_def release_v1_def release_v2_def engine_defs)
  have "c = (fst c, snd c)" by simp
  note update_call_iff_changed[OF this[unfolded c_def], THEN conjunct2, THEN mp, OF n]
  then have "updated (fst c) = 0 \<and> updateCalls (trace (snd c)) = []"
    unfolding c_def by simp
  with l n show ?thesis unfolding c_def by simp
qed

text \<open>
  Claim C10. When the listing throws, \<^verbatim>\<open>getAllReleases\<close> returns the empty list
  and \<^verbatim>\<open>processRepositoryReleases\<close> returns processed 0, updated 0, no backup file
  and no error flag; the run has only listed (the disk is untouched, the trace gains
  neither a backup nor an update-body call). A remote that lists no release gives the
  same result and the same state.
\<close>

theorem listing_failure_is_silent:
  assumes "listReleases oct ow rp = None"
  shows "getAllReleases oct ow rp w = ([], w\<lparr>trace := trace w @ [ListReleases ow rp]\<rparr>)
       \<and> processRepositoryReleases oct m now1 now2 ow rp w
           = (\<lparr>processed = 0, updated = 0, backupFile = None, error = False\<rparr>,
              w\<lparr>trace := trace w @ [ListReleases ow rp]\<rparr>)
       \<and> (listReleases oct' ow rp = Some []
            \<longrightarrow> processRepositoryReleases oct' m now1 now2 ow rp w
                = processRepositoryReleases oct m now1 now2 ow rp w)"
  using assms by (simp add: processRepositoryReleases_def getAllReleases_def Let_def)

theorem listing_failure_is_silent_witness:
  "listReleases oct_down ''acme'' ''widgets'' = None
   \<and> listReleases oct_no_releases ''acme'' ''widgets'' = Some []
   \<and> processRepositoryReleases oct_down [(''alice'', ''bob'')]
        ''2024-01-01T00:00:00.000Z'' ''2024-01-01T00:00:00.001Z'' ''acme'' ''widgets''
        \<lparr>disk = fs_empty, trace = []\<rparr>
       = (\<lparr>processed = 0, updated = 0, backupFile = None, error = False\<rparr>,
          \<lparr>disk = fs_empty, trace = [ListReleases ''acme'' ''widgets'']\<rparr>)
   \<and> processRepositoryReleases oct_no_releases [(''alice'', ''bob'')]
        ''2024-01-01T00:00:00.000Z'' ''2024-01-01T00:00:00.001Z'' ''acme'' ''widgets''
        \<lparr>disk = fs_empty, trace = []\<rparr>
       = (\<lparr>processed = 0, updated = 0, backupFile = None, error = False\<rparr>,
          \<lparr>disk = fs_empty, trace = [ListReleases ''acme'' ''widgets'']\<rparr>)"
  using listing_failure_is_silent[of oct_down "''acme''" "''widgets''"
      "\<lparr>disk = fs_empty, trace = []\<rparr>" "[(''alice'', ''bob'')]"
      "''2024-01-01T00:00:00.000Z''" "''2024-01-01T00:00:00.001Z''" oct_no_releases]
  by (simp add: oct_down_def oct_no_releases_def)

text \<open>
  Claim C1 against the code: on a disk that refuses every write \<^verbatim>\<open>createBackup\<close>
  returns \<open>null\<close>, and \<^verbatim>\<open>processRepositoryReleases\<close> goes on to update the
  release whose body changes.
\<close>

theorem update_without_backup:
  "processRepositoryReleases oct_acme [(''alice'', ''bob'')]
     ''2024-01-01T00:00:00.000Z'' ''2024-01-01T00:00:00.001Z'' ''acme'' ''widgets''
     \<lparr>disk = fs_readonly, trace = []\<rparr>
   = (\<lparr>processed = 2, updated = 1, backupFile = None, error = False\<rparr>,
      \<lparr>disk = fs_readonly,
       trace = [ListReleases ''acme'' ''widgets'',
                Backup ''acme'' ''widgets'' None,
                UpdateRelease \<lparr>call_owner = ''acme'', call_repo = ''widgets'',
                               call_release_id = 101, call_body = Some ''Thanks @bob''\<rparr>]\<rparr>)"
  by (simp add: run_defs backup_defs engine_defs oct_acme_def release_v1_def release_v2_def
        fs_readonly_def fs_empty_def Let_def)

subsection \<open>The restore tool\<close>

lemma restoreEach_trace:
  "restoreEach oct ow rp cur bs n w = (n', w') \<Longrightarrow>
     updateCalls (trace w') = updateCalls (trace w) @ List.map_filter (restoreCallFor ow rp cur) bs
     \<and> disk w' = disk w \<and> n \<le> n'
     \<and> n' \<le> n + length (List.map_filter (restoreCallFor ow rp cur) bs)
     \<and> ((\<forall>h c. updateReleaseOk oct h c)
          \<longrightarrow> n' = n + length (List.map_filter (restoreCallFor ow rp cur) bs))"
proof (induction bs arbitrary: n w)
  case Nil
  then show ?case by (simp add: List.map_filter_simps)
next
  case (Cons b bs)
  show ?case
  proof (cases "find (\<lambda>c. tag_name c = tag_name b) cur")
    case None
    with Cons.prems have "restoreEach oct ow rp cur bs n w = (n', w')" by simp
    from Cons.IH[OF this] None show ?thesis
      by (simp add: List.map_filter_simps restoreCallFor_def)
  next
    case (Some c)
    let ?call = "\<lparr>call_owner = ow, call_repo = rp, call_release_id = release_id c,
                   call_body = body b\<rparr>"
    let ?ok = "updateReleaseOk oct (trace w) ?call"
    let ?w1 = "w\<lparr>trace := trace w @ [UpdateRelease ?call]\<rparr>"
    from Cons.prems Some
    have "restoreEach oct ow rp cur bs (if ?ok then n + 1 else n) ?w1 = (n', w')"
      by (simp add: restoreRelease_def Let_def)
    from Cons.IH[OF this] Some show ?thesis
      by (auto simp: List.map_filter_simps restoreCallFor_def updateCalls_append split: if_splits)
  qed
qed

lemmas restore_defs = restoreRepositoryFromBackup_def restoreRelease_def restoreCallFor_def
  restore_main_def

text \<open>
  Claim C7. Restoring a backup with releases, against a listing that succeeds, issues
  for each backed-up release whose tag a live release carries one update-body call (the
  live release's id, the backed-up body as it is), in the order of the backup, and
  nothing for a release whose tag is gone; whether calls fail changes neither the calls
  nor the error flag, only the count of restored releases.
\<close>

theorem restore_matches_by_tag:
  assumes "readJson (disk w) f = Some (BackupDoc d)" and "releases d \<noteq> []"
    and "listReleases oct ow rp = Some cur"
    and "restoreRepositoryFromBackup oct ow rp f w = (res, w')"
  shows "updateCalls (trace w')
           = updateCalls (trace w) @ List.map_filter (restoreCallFor ow rp cur) (releases d)
       \<and> restore_processed res = length (releases d)
       \<and> \<not> restore_error res
       \<and> restored res \<le> length (List.map_filter (restoreCallFor ow rp cur) (releases d))
       \<and> ((\<forall>h c. updateReleaseOk oct h c)
            \<longrightarrow> restored res = length (List.map_filter (restoreCallFor ow rp cur) (releases d)))"
proof -
  let ?w1 = "w\<lparr>trace := trace w @ [ListReleases ow rp]\<rparr>"
  obtain n w2 where e: "restoreEach oct ow rp cur (releases d) 0 ?w1 = (n, w2)"
    by (cases "restoreEach oct ow rp cur (releases d) 0 ?w1")
  with assms have r: "res = \<lparr>restore_processed = length (releases d), restored = n,
      restore_error = False\<rparr>" "w' = w2"
    by (auto simp: restoreRepositoryFromBackup_def Let_def)
  from restoreEach_trace[OF e] r show ?thesis
    by (simp add: updateCalls_append)
qed

theorem restore_matches_by_tag_witness:
  "readJson (disk \<lparr>disk = fs_restore, trace = []\<rparr>) (path file_jan) = Some (BackupDoc backup_three)
   \<and> releases backup_three \<noteq> []
   \<and> listReleases oct_flaky ''acme'' ''widgets'' = Some [release_v1, release_v2]
   \<and> fst (restoreRepositoryFromBackup oct_flaky ''acme'' ''widgets'' (path file_jan)
            \<lparr>disk = fs_restore, trace = []\<rparr>)
       = \<lparr>restore_processed = 3, restored = 1, restore_error = False\<rparr>
   \<and> updateCalls (trace (snd (restoreRepositoryFromBackup oct_flaky ''acme'' ''widgets''
            (path file_jan) \<lparr>disk = fs_restore, trace = []\<rparr>)))
       = [\<lparr>call_owner = ''acme'', call_repo = ''widgets'', call_release_id = 101,
           call_body = Some ''Thanks @alice''\<rparr>,
          \<lparr>call_owner = ''acme'', call_repo = ''widgets'', call_release_id = 102,
           call_body = None\<rparr>]"
proof -
  define c where "c = restoreRepositoryFromBackup oct_flaky ''acme'' ''widgets'' (path file_jan)
            \<lparr>disk = fs_restore, trace = []\<rparr>"
  have a1: "readJson (disk \<lparr>disk = fs_restore, trace = []\<rparr>) (path file_jan) = Some (BackupDoc backup_three)"
    by (simp add: fs_restore_def)
  have a2: "releases backup_three \<noteq> []" by (simp add: backup_three_def)
  have a3: "listReleases oct_flaky ''acme'' ''widgets'' = Some [release_v1, release_v2]"
    by (simp add: oct_flaky_def)
  have a4: "c = (fst c, snd c)" by simp
  have f: "fst c = \<lparr>restore_processed = 3, restored = 1, restore_error = False\<rparr>"
    unfolding c_def
    by (simp add: restore_defs fs_restore_def fs_empty_def oct_flaky_def backup_three_def
          release_v1_def release_v2_def file_jan_def Let_def)
  note restore_matches_by_tag[OF a1 a2 a3 a4[unfolded c_def], THEN conjunct1]
  then have "updateCalls (trace (snd c))
       = [\<lparr>call_owner = ''acme'', call_repo = ''widgets'', call_release_id = 101,
           call_body = Some ''Thanks @alice''\<rparr>,
          \<lparr>call_owner = ''acme'', call_repo = ''widgets'', call_release_id = 102,
           call_body = None\<rparr>]"
    unfolding c_def
    by (simp add: List.map_filter_simps restoreCallFor_def backup_three_def release_v1_def
          release_v2_def)
  with a1 a2 a3 f show ?thesis unfolding c_def by simp
qed

text \<open>
  Claim C4 against the code: \<^verbatim>\<open>main\<close> takes \<^verbatim>\<open>backup_files[0]\<close>, the first
  file of the listing. With two backups listed in the order of their names that is the
  January backup, not the more recent June one, and the January body is sent.
\<close>

theorem restore_replays_first_listed_backup:
  "listAvailableBackups fs_two_backups
     = [\<lparr>owner = ''acme'', repo = ''widgets'', backup_files = [file_jan, file_jun]\<rparr>]
   \<and> restore_main oct_acme (Some 1) True \<lparr>disk = fs_two_backups, trace = []\<rparr>
     = (RestoreDone (path file_jan)
          \<lparr>restore_processed = 1, restored = 1, restore_error = False\<rparr>,
        \<lparr>disk = fs_two_backups,
         trace = [ListReleases ''acme'' ''widgets'',
                  UpdateRelease \<lparr>call_owner = ''acme'', call_repo = ''widgets'',
                                 call_release_id = 101,
                                 call_body = Some ''Thanks @alice''\<rparr>]\<rparr>)
   \<and> \<not> mostRecent file_jan [file_jan, file_jun]
   \<and> mostRecent file_jun [file_jan, file_jun]"
proof -
  have l: "listAvailableBackups fs_two_backups
     = [\<lparr>owner = ''acme'', repo = ''widgets'', backup_files = [file_jan, file_jun]\<rparr>]"
    by (simp add: scan_defs fixture_defs Let_def)
  have r: "restoreRepositoryFromBackup oct_acme ''acme'' ''widgets'' (path file_jan)
             \<lparr>disk = fs_two_backups, trace = []\<rparr>
     = (\<lparr>restore_processed = 1, restored = 1, restore_error = False\<rparr>,
        \<lparr>disk = fs_two_backups,
         trace = [ListReleases ''acme'' ''widgets'',
                  UpdateRelease \<lparr>call_owner = ''acme'', call_repo = ''widgets'',
                                 call_release_id = 101,
                                 call_body = Some ''Thanks @alice''\<rparr>]\<rparr>)"
    by (simp add: restoreRepositoryFromBackup_def restoreRelease_def Let_def fixture_defs)
  have m: "\<not> mostRecent file_jan [file_jan, file_jun]" "mostRecent file_jun [file_jan, file_jun]"
    by (simp_all add: mostRecent_def file_jan_def file_jun_def less_eq_char_def)
  show ?thesis using l r m by (simp add: restore_main_def)
qed

end
